theory Spec2Isabelle
  imports Complex_Main "HOL-Library.Multiset"
begin

section \<open>Strings of the Go standard library\<close>

text \<open>
  A Go string is a sequence of bytes; it is modelled as a \<^typ>\<open>string\<close>, one
  \<^typ>\<open>char\<close> per byte.  The functions of packages \<^verbatim>\<open>strings\<close> and
  \<^verbatim>\<open>path/filepath\<close> that the program calls are written out here on bytes.
\<close>

definition HasPrefix :: "string \<Rightarrow> string \<Rightarrow> bool" where
  "HasPrefix s p = (length p \<le> length s \<and> take (length p) s = p)"

definition HasSuffix :: "string \<Rightarrow> string \<Rightarrow> bool" where
  "HasSuffix s x = (length x \<le> length s \<and> drop (length s - length x) s = x)"

definition TrimPrefix :: "string \<Rightarrow> string \<Rightarrow> string" where
  "TrimPrefix s p = (if HasPrefix s p then drop (length p) s else s)"

fun Contains :: "string \<Rightarrow> string \<Rightarrow> bool" where
  "Contains [] sub = (sub = [])"
| "Contains (c # s) sub = (HasPrefix (c # s) sub \<or> Contains s sub)"

text \<open>
  \<^verbatim>\<open>strings.ToLower\<close> as far as the tests on asset names need it: the bytes
  \<^verbatim>\<open>A\<close> to \<^verbatim>\<open>Z\<close> are mapped to \<^verbatim>\<open>a\<close> to \<^verbatim>\<open>z\<close>, which is all the library
  does to a name of ASCII bytes.  In a name with bytes from 0x80 on the library
  lower-cases the runes they encode by the case tables of Unicode (and writes U+FFFD
  for a byte that encodes none), which again yields bytes from 0x80 on, apart from
  U+212A and U+0130, whose lower case is \<^verbatim>\<open>k\<close> and \<^verbatim>\<open>i\<close>.  Neither letter occurs
  in \<^verbatim>\<open>.tar.gz\<close> or \<^verbatim>\<open>ge-proton\<close>, so \<^verbatim>\<open>PickLinuxTarball\<close>, which only looks for
  these two strings in a lower-cased name, is the same with either.  Where two
  lower-cased names are compared with each other (\<^verbatim>\<open>loadAvailable\<close>), the library
  function is a parameter instead.
\<close>

definition lowerByte :: "char \<Rightarrow> char" where
  "lowerByte c =
     (case map_of (zip ''ABCDEFGHIJKLMNOPQRSTUVWXYZ'' ''abcdefghijklmnopqrstuvwxyz'') c of
        Some l \<Rightarrow> l
      | None \<Rightarrow> c)"

definition ToLower :: "string \<Rightarrow> string" where
  "ToLower s = map lowerByte s"

section \<open>Releases and assets\<close>

text \<open>
  \<^verbatim>\<open>internal/github/releases.go\<close>: the two structs.  \<^verbatim>\<open>Size\<close> is an
  \<^verbatim>\<open>int64\<close> that is only ever compared, so it is an \<^typ>\<open>int\<close>; the two
  \<^verbatim>\<open>time.Time\<close> fields are seconds since the epoch.
\<close>

record Asset =
  AssetName :: string
  BrowserDownloadURL :: string
  Size :: int
  ContentType :: string

record Release =
  TagName :: string
  RelName :: string
  Prerelease :: bool
  Assets :: "Asset list"
  Draft :: bool
  Body :: string
  HTMLURL :: string
  Created :: int
  Published :: int


definition zeroAsset :: Asset where
  "zeroAsset = \<lparr>AssetName = [], BrowserDownloadURL = [], Size = 0, ContentType = []\<rparr>"

section \<open>Sorting a slice: \<^verbatim>\<open>slices.SortFunc\<close>\<close>

text \<open>
  \<^verbatim>\<open>slices.SortFunc(x, cmp)\<close> is \<^verbatim>\<open>pdqsortCmpFunc(x, 0, len(x), bits.Len(len(x)), cmp)\<close>,
  whose first test hands a slice of at most \<^verbatim>\<open>maxInsertion = 12\<close> elements to
  \<^verbatim>\<open>insertionSortCmpFunc\<close>.  A slice is a list; an assignment to an index is a
  list update.
\<close>

definition swap :: "'a list \<Rightarrow> nat \<Rightarrow> nat \<Rightarrow> 'a list" where
  "swap data i j = data[i := data ! j, j := data ! i]"

text \<open>
  \<^verbatim>\<open>for j := i; j > a && cmp(data[j], data[j-1]) < 0; j-- { swap j, j-1 }\<close>
\<close>

fun insertionInner :: "('a \<Rightarrow> 'a \<Rightarrow> int) \<Rightarrow> nat \<Rightarrow> 'a list \<Rightarrow> nat \<Rightarrow> 'a list" where
  "insertionInner cmp a data j =
     (if j > a \<and> cmp (data ! j) (data ! (j - 1)) < 0
      then insertionInner cmp a (swap data j (j - 1)) (j - 1)
      else data)"

declare insertionInner.simps [simp del]

text \<open>\<^verbatim>\<open>for i := a + 1; i < b; i++ { ... }\<close>\<close>

function insertionOuter :: "('a \<Rightarrow> 'a \<Rightarrow> int) \<Rightarrow> nat \<Rightarrow> nat \<Rightarrow> 'a list \<Rightarrow> nat \<Rightarrow> 'a list" where
  "insertionOuter cmp a b data i =
     (if i < b then insertionOuter cmp a b (insertionInner cmp a data i) (i + 1) else data)"
  by pat_completeness auto
termination
  by (relation "measure (\<lambda>(cmp, a, b, data, i). b - i)") auto

declare insertionOuter.simps [simp del]

definition insertionSortCmpFunc :: "('a \<Rightarrow> 'a \<Rightarrow> int) \<Rightarrow> 'a list \<Rightarrow> nat \<Rightarrow> nat \<Rightarrow> 'a list" where
  "insertionSortCmpFunc cmp data a b = insertionOuter cmp a b data (a + 1)"

text \<open>
  For a longer slice the library runs its pattern-defeating quicksort, which its
  documentation does not guarantee to be stable.  What it returns for a slice of more
  than twelve elements is the parameter \<open>long\<close>.
\<close>

definition SortFunc ::
  "(('a \<Rightarrow> 'a \<Rightarrow> int) \<Rightarrow> 'a list \<Rightarrow> 'a list) \<Rightarrow> ('a \<Rightarrow> 'a \<Rightarrow> int) \<Rightarrow> 'a list \<Rightarrow> 'a list" where
  "SortFunc long cmp x =
     (if length x \<le> 12 then insertionSortCmpFunc cmp x 0 (length x) else long cmp x)"

section \<open>Choosing the asset to install: \<^verbatim>\<open>PickLinuxTarball\<close>\<close>

definition isTarGz :: "Asset \<Rightarrow> bool" where
  "isTarGz a = HasSuffix (ToLower (AssetName a)) ''.tar.gz''"

definition isGEProton :: "Asset \<Rightarrow> bool" where
  "isGEProton a = Contains (ToLower (AssetName a)) ''ge-proton''"

text \<open>The comparison handed to \<^verbatim>\<open>slices.SortFunc\<close>: larger sizes first.\<close>

definition bySize :: "Asset \<Rightarrow> Asset \<Rightarrow> int" where
  "bySize a b = (if Size a = Size b then 0 else if Size a < Size b then 1 else - 1)"

definition PickLinuxTarball ::
  "((Asset \<Rightarrow> Asset \<Rightarrow> int) \<Rightarrow> Asset list \<Rightarrow> Asset list) \<Rightarrow> Asset list \<Rightarrow> Asset \<times> bool" where
  "PickLinuxTarball long assets =
     (let cands = filter (\<lambda>a. isTarGz a \<and> isGEProton a) assets;
          cands = (if length cands = 0 then filter isTarGz assets else cands)
      in if length cands = 0 then (zeroAsset, False)
         else (SortFunc long bySize cands ! 0, True))"

section \<open>Fetching the catalogue: \<^verbatim>\<open>FetchAllReleases\<close>\<close>

text \<open>
  An \<^verbatim>\<open>error\<close> is either built here by \<^verbatim>\<open>fmt.Errorf\<close>, and then carries
  its formatted message, or handed over by a library call (the HTTP client, the JSON
  decoder, the operating system).
\<close>

datatype error = Errorf string | Failure string

fun Error :: "error \<Rightarrow> string" where
  "Error (Errorf msg) = msg"
| "Error (Failure msg) = msg"

record Response =
  StatusCode :: int
  Status :: string
  ContentLength :: int
  RespBody :: string

text \<open>
  \<^verbatim>\<open>strings.TrimSpace\<close> removes the leading and then the trailing runes that
  \<^verbatim>\<open>unicode.IsSpace\<close> accepts: tab, line feed, vertical tab, form feed, carriage
  return, space, U+0085, U+00A0, U+1680, U+2000 to U+200A, U+2028, U+2029, U+202F,
  U+205F and U+3000.  \<open>unicodeSpaces\<close> are their encodings in UTF-8.  Bytes that encode
  no rune are read as U+FFFD, which is no white space, so the string begins (ends) with
  a rune of white space exactly when it begins (ends) with one of these encodings.
\<close>

definition unicodeSpaces :: "string list" where
  "unicodeSpaces =
     [[CHR 0x09], [CHR 0x0A], [CHR 0x0B], [CHR 0x0C], [CHR 0x0D], [CHR 0x20],
      [CHR 0xC2, CHR 0x85], [CHR 0xC2, CHR 0xA0], [CHR 0xE1, CHR 0x9A, CHR 0x80],
      [CHR 0xE2, CHR 0x80, CHR 0x80], [CHR 0xE2, CHR 0x80, CHR 0x81],
      [CHR 0xE2, CHR 0x80, CHR 0x82], [CHR 0xE2, CHR 0x80, CHR 0x83],
      [CHR 0xE2, CHR 0x80, CHR 0x84], [CHR 0xE2, CHR 0x80, CHR 0x85],
      [CHR 0xE2, CHR 0x80, CHR 0x86], [CHR 0xE2, CHR 0x80, CHR 0x87],
      [CHR 0xE2, CHR 0x80, CHR 0x88], [CHR 0xE2, CHR 0x80, CHR 0x89],
      [CHR 0xE2, CHR 0x80, CHR 0x8A], [CHR 0xE2, CHR 0x80, CHR 0xA8],
      [CHR 0xE2, CHR 0x80, CHR 0xA9], [CHR 0xE2, CHR 0x80, CHR 0xAF],
      [CHR 0xE2, CHR 0x81, CHR 0x9F], [CHR 0xE3, CHR 0x80, CHR 0x80]]"

function TrimLeftSpace :: "string \<Rightarrow> string" where
  "TrimLeftSpace s =
     (case find (HasPrefix s) unicodeSpaces of
        None \<Rightarrow> s
      | Some e \<Rightarrow> TrimLeftSpace (drop (length e) s))"
  by pat_completeness auto
termination
proof (relation "measure length")
  show "wf (measure length)"
    by simp
next
  fix s e :: string
  assume "find (HasPrefix s) unicodeSpaces = Some e"
  then have "e \<in> set unicodeSpaces" and "HasPrefix s e"
    by (auto simp: find_Some_iff)
  then have "0 < length e" and "length e \<le> length s"
    by (auto simp: unicodeSpaces_def HasPrefix_def)
  then show "(drop (length e) s, s) \<in> measure length"
    by (cases e) simp_all
qed

declare TrimLeftSpace.simps [simp del]

function TrimRightSpace :: "string \<Rightarrow> string" where
  "TrimRightSpace s =
     (case find (HasSuffix s) unicodeSpaces of
        None \<Rightarrow> s
      | Some e \<Rightarrow> TrimRightSpace (take (length s - length e) s))"
  by pat_completeness auto
termination
proof (relation "measure length")
  show "wf (measure length)"
    by simp
next
  fix s e :: string
  assume "find (HasSuffix s) unicodeSpaces = Some e"
  then have "e \<in> set unicodeSpaces" and "HasSuffix s e"
    by (auto simp: find_Some_iff)
  then have "0 < length e" and "length e \<le> length s"
    by (auto simp: unicodeSpaces_def HasSuffix_def)
  then show "(take (length s - length e) s, s) \<in> measure length"
    by (cases e) simp_all
qed

declare TrimRightSpace.simps [simp del]

definition TrimSpace :: "string \<Rightarrow> string" where
  "TrimSpace s = TrimRightSpace (TrimLeftSpace s)"

definition perPage :: nat where
  "perPage = 100"

definition rateLimited :: error where
  "rateLimited = Errorf ''GitHub API returned 403 (rate limited?). Try setting GITHUB_TOKEN''"

definition apiError :: "Response \<Rightarrow> error" where
  "apiError resp =
     Errorf (''GitHub API error: '' @ Status resp @ '': '' @ TrimSpace (take 4096 (RespBody resp)))"

text \<open>
  The function literal that reads one response: it sets \<^verbatim>\<open>err\<close> or appends the
  decoded page to \<^verbatim>\<open>all\<close>.  \<open>decode\<close> is \<^verbatim>\<open>json.NewDecoder(resp.Body).Decode\<close>.
\<close>

definition readPage ::
  "(string \<Rightarrow> error + Release list) \<Rightarrow> Response \<Rightarrow> Release list \<Rightarrow> Release list \<times> error option" where
  "readPage decode resp all =
     (if StatusCode resp = 403 then (all, Some rateLimited)
      else if StatusCode resp < 200 \<or> StatusCode resp \<ge> 300 then (all, Some (apiError resp))
      else case decode (RespBody resp) of
             Inl derr \<Rightarrow> (all, Some derr)
           | Inr rels \<Rightarrow> if length rels = 0 then (all, None) else (all @ rels, None))"

text \<open>
  The paging loop.  \<open>Do n p\<close> is what \<^verbatim>\<open>client.Do\<close> returns for the request with
  \<^verbatim>\<open>per_page=n\<close> and \<^verbatim>\<open>page=p\<close>.  The loop has no bound of its own, so it is a
  partial function: \<open>None\<close> is a run that never returns.  Besides \<^verbatim>\<open>all\<close> and
  \<^verbatim>\<open>err\<close> the result lists the pages that were requested.
\<close>

partial_function (option) fetchPages ::
  "(nat \<Rightarrow> nat \<Rightarrow> error + Response) \<Rightarrow> (string \<Rightarrow> error + Release list) \<Rightarrow>
   nat \<Rightarrow> Release list \<Rightarrow> nat list \<Rightarrow> (nat list \<times> Release list \<times> error option) option" where
  "fetchPages Do decode page all reqs =
     (case Do perPage page of
        Inl err \<Rightarrow> Some (reqs @ [page], all, Some err)
      | Inr resp \<Rightarrow>
          (case readPage decode resp all of
             (all', Some err) \<Rightarrow> Some (reqs @ [page], all', Some err)
           | (all', None) \<Rightarrow>
               if length all' < page * perPage then Some (reqs @ [page], all', None)
               else fetchPages Do decode (page + 1) all' (reqs @ [page])))"

text \<open>
  The filter \<^verbatim>\<open>out := all[:0]; for _, r := range all { ... out = append(out, r) }\<close>
  writes into the array it reads: \<open>arr\<close> is that array, \<open>i\<close> the index read, \<open>n\<close> the
  length of \<^verbatim>\<open>out\<close>.
\<close>

function filterLoop ::
  "((Asset \<Rightarrow> Asset \<Rightarrow> int) \<Rightarrow> Asset list \<Rightarrow> Asset list) \<Rightarrow> Release list \<Rightarrow> nat \<Rightarrow> nat \<Rightarrow> Release list" where
  "filterLoop long arr i n =
     (if i < length arr then
        (let r = arr ! i in
         if Draft r then filterLoop long arr (i + 1) n
         else if snd (PickLinuxTarball long (Assets r)) then filterLoop long (arr[n := r]) (i + 1) (n + 1)
         else filterLoop long arr (i + 1) n)
      else take n arr)"
  by pat_completeness auto
termination
  by (relation "measure (\<lambda>(long, arr, i, n). length arr - i)") auto

declare filterLoop.simps [simp del]

definition FetchAllReleases ::
  "((Asset \<Rightarrow> Asset \<Rightarrow> int) \<Rightarrow> Asset list \<Rightarrow> Asset list) \<Rightarrow>
   (nat \<Rightarrow> nat \<Rightarrow> error + Response) \<Rightarrow> (string \<Rightarrow> error + Release list) \<Rightarrow>
   (Release list \<times> error option) option" where
  "FetchAllReleases long Do decode =
     (case fetchPages Do decode 1 [] [] of
        None \<Rightarrow> None
      | Some (reqs, all, Some err) \<Rightarrow> Some ([], Some err)
      | Some (reqs, all, None) \<Rightarrow> Some (filterLoop long all 0 0, None))"

section \<open>The list of available releases: \<^verbatim>\<open>loadAvailable\<close>\<close>

text \<open>
  \<^verbatim>\<open>internal/ui/ui.go\<close>.  The package variables the function reads and writes,
  with the log view and the error dialogs it opens.  Log lines are kept without their
  time stamp.
\<close>

record UI =
  currentInstalled :: "string list"
  availableReleases :: "Release list"
  currentAvailable :: "string list"
  selectedAvailable :: int
  logView :: "string list"
  dialogs :: "error list"

fun itoa :: "nat \<Rightarrow> string" where
  "itoa n =
     (if n < 10 then [char_of (of_char CHR ''0'' + n)]
      else itoa (n div 10) @ [char_of (of_char CHR ''0'' + n mod 10)])"

declare itoa.simps [simp del]

definition formatReleaseLabel :: "Release \<Rightarrow> string" where
  "formatReleaseLabel r =
     TagName r @ (if Prerelease r then '' (pre-release)'' else []) @
     [CHR '' '', CHR 0xE2, CHR 0x80, CHR 0x94, CHR '' ''] @ RelName r"

text \<open>
  \<open>rels\<close> and \<open>err\<close> are what \<^verbatim>\<open>github.FetchAllReleases\<close> returned.  The Go map
  \<^verbatim>\<open>installed\<close> is a map to \<^typ>\<open>bool\<close>; reading a key that is absent gives
  \<^verbatim>\<open>false\<close>.  \<open>toLower\<close> is \<^verbatim>\<open>strings.ToLower\<close>, which lower-cases every letter of
  Unicode; nothing is assumed of it.
\<close>

definition lookupBool :: "(string \<rightharpoonup> bool) \<Rightarrow> string \<Rightarrow> bool" where
  "lookupBool m k = (case m k of Some b \<Rightarrow> b | None \<Rightarrow> False)"

definition installedSet :: "(string \<Rightarrow> string) \<Rightarrow> string list \<Rightarrow> (string \<rightharpoonup> bool)" where
  "installedSet toLower names = fold (\<lambda>inst m. m(toLower inst \<mapsto> True)) names Map.empty"

definition loadAvailable ::
  "(string \<Rightarrow> string) \<Rightarrow> Release list \<times> error option \<Rightarrow> UI \<Rightarrow> UI" where
  "loadAvailable toLower res ui =
     (case res of
        (rels, Some err) \<Rightarrow>
          ui\<lparr>dialogs := dialogs ui @ [err],
             logView := logView ui @ [''GitHub fetch failed: '' @ Error err]\<rparr>
      | (rels, None) \<Rightarrow>
          (let installed = installedSet toLower (currentInstalled ui);
               filtered = filter (\<lambda>r. \<not> lookupBool installed (toLower (TagName r))) rels
           in ui\<lparr>availableReleases := filtered,
                 currentAvailable := map formatReleaseLabel filtered,
                 selectedAvailable := - 1,
                 logView := logView ui @
                   [''Loaded '' @ itoa (length filtered) @ '' GitHub releases ('' @
                    itoa (length rels - length filtered) @ '' filtered).'']\<rparr>))"

text \<open>
  Two readings used to state properties: a release passes the filter of
  \<^verbatim>\<open>FetchAllReleases\<close>; a tag equals one of the installed names up to the case of
  letters, that is, both have the same lower case.
\<close>

definition catalogEligible ::
  "((Asset \<Rightarrow> Asset \<Rightarrow> int) \<Rightarrow> Asset list \<Rightarrow> Asset list) \<Rightarrow> Release \<Rightarrow> bool" where
  "catalogEligible long r = (\<not> Draft r \<and> snd (PickLinuxTarball long (Assets r)))"

definition sameFold :: "(string \<Rightarrow> string) \<Rightarrow> string list \<Rightarrow> string \<Rightarrow> bool" where
  "sameFold toLower names tag = (\<exists>inst \<in> set names. toLower inst = toLower tag)"

text \<open>
  The states in which the paging loop starts an iteration: the first one, and the one
  after every iteration that neither failed nor left the loop.
\<close>

inductive loopState ::
  "(nat \<Rightarrow> nat \<Rightarrow> error + Response) \<Rightarrow> (string \<Rightarrow> error + Release list) \<Rightarrow>
   nat \<Rightarrow> Release list \<Rightarrow> nat list \<Rightarrow> bool"
  for Do decode where
  first: "loopState Do decode 1 [] []"
| nextPage:
    "loopState Do decode page all reqs \<Longrightarrow> Do perPage page = Inr resp \<Longrightarrow>
     readPage decode resp all = (all', None) \<Longrightarrow> \<not> length all' < page * perPage \<Longrightarrow>
     loopState Do decode (page + 1) all' (reqs @ [page])"

text \<open>
  An API that holds \<open>items\<close> and serves them in pages: every request for page \<open>p\<close> is
  answered with a status from 200 to 299 and a body that decodes to the \<open>p\<close>-th block of
  \<open>perPage\<close> items, which is short or empty from the end of \<open>items\<close> on.
\<close>

definition servesPaged ::
  "(nat \<Rightarrow> nat \<Rightarrow> error + Response) \<Rightarrow> (string \<Rightarrow> error + Release list) \<Rightarrow> Release list \<Rightarrow> bool" where
  "servesPaged Do decode items =
     (\<forall>p. \<exists>resp. Do perPage p = Inr resp \<and> 200 \<le> StatusCode resp \<and> StatusCode resp < 300 \<and>
        decode (RespBody resp) = Inr (take perPage (drop ((p - 1) * perPage) items)))"

text \<open>The number of pages as the specification counts them: \<open>n / d\<close> rounded up.\<close>

definition ceilDiv :: "nat \<Rightarrow> nat \<Rightarrow> nat" where
  "ceilDiv n d = nat \<lceil>real n / real d\<rceil>"

section \<open>Paths: \<^verbatim>\<open>path/filepath\<close> on a system whose separator is the slash\<close>

text \<open>
  \<^verbatim>\<open>filepath.Clean\<close> reads \<open>path\<close> at index \<open>r\<close> and writes to the buffer \<open>out\<close>;
  \<open>dotdot\<close> is the length of \<open>out\<close> below which a \<^verbatim>\<open>..\<close> element must not
  remove anything.  There is no volume name, and the final \<^verbatim>\<open>FromSlash\<close> changes
  nothing.
\<close>

text \<open>\<^verbatim>\<open>out.w--; for out.w > dotdot && !IsPathSeparator(out.index(out.w)) { out.w-- }\<close>\<close>

fun backtrack :: "string \<Rightarrow> nat \<Rightarrow> nat \<Rightarrow> nat" where
  "backtrack out dotdot w =
     (if w > dotdot \<and> out ! w \<noteq> CHR ''/'' then backtrack out dotdot (w - 1) else w)"

declare backtrack.simps [simp del]

function cleanLoop :: "string \<Rightarrow> bool \<Rightarrow> nat \<Rightarrow> string \<Rightarrow> nat \<Rightarrow> string" where
  "cleanLoop path rooted r out dotdot =
     (if r < length path then
        if path ! r = CHR ''/'' then cleanLoop path rooted (r + 1) out dotdot
        else if path ! r = CHR ''.'' \<and> (r + 1 = length path \<or> path ! (r + 1) = CHR ''/'')
          then cleanLoop path rooted (r + 1) out dotdot
        else if path ! r = CHR ''.'' \<and> path ! (r + 1) = CHR ''.'' \<and>
                (r + 2 = length path \<or> path ! (r + 2) = CHR ''/'')
          then (if length out > dotdot
                  then cleanLoop path rooted (r + 2)
                         (take (backtrack out dotdot (length out - 1)) out) dotdot
                else if \<not> rooted
                  then (let out' = (if length out > 0 then out @ ''/'' else out) @ ''..''
                        in cleanLoop path rooted (r + 2) out' (length out'))
                else cleanLoop path rooted (r + 2) out dotdot)
        else (let out' = (if rooted \<and> length out \<noteq> 1 \<or> \<not> rooted \<and> length out \<noteq> 0
                          then out @ ''/'' else out);
                  elem = takeWhile (\<lambda>c. c \<noteq> CHR ''/'') (drop r path)
              in cleanLoop path rooted (r + length elem) (out' @ elem) dotdot)
      else out)"
  by pat_completeness auto
termination
proof (relation "measure (\<lambda>(path, rooted, r, out, dotdot). length path - r)")
  show "wf (measure (\<lambda>(path, rooted, r, out, dotdot). length path - r))"
    by simp
next
  fix path :: string and rooted :: bool and r :: nat and out :: string and dotdot :: nat
    and out' elem :: string
  assume r: "r < length path" and ns: "path ! r \<noteq> CHR ''/''"
    and el: "elem = takeWhile (\<lambda>c. c \<noteq> CHR ''/'') (drop r path)"
  from r have "drop r path = path ! r # drop (Suc r) path"
    by (simp add: Cons_nth_drop_Suc)
  with ns el have "0 < length elem"
    by simp
  with r have "length path - (r + length elem) < length path - r"
    by linarith
  then show "((path, rooted, r + length elem, out' @ elem, dotdot), (path, rooted, r, out, dotdot))
        \<in> measure (\<lambda>(path, rooted, r, out, dotdot). length path - r)"
    by simp
qed auto

declare cleanLoop.simps [simp del]

definition Clean :: "string \<Rightarrow> string" where
  "Clean path =
     (if path = [] then ''.''
      else (let rooted = (path ! 0 = CHR ''/'');
                out = (if rooted then cleanLoop path rooted 1 ''/'' 1
                       else cleanLoop path rooted 0 [] 0)
            in if length out = 0 then ''.'' else out))"

text \<open>\<^verbatim>\<open>strings.Join(elems, "/")\<close> and \<^verbatim>\<open>filepath.Join\<close>.\<close>

fun joinSlash :: "string list \<Rightarrow> string" where
  "joinSlash [] = []"
| "joinSlash [e] = e"
| "joinSlash (e # es) = e @ ''/'' @ joinSlash es"

fun Join :: "string list \<Rightarrow> string" where
  "Join [] = []"
| "Join (e # es) = (if e \<noteq> [] then Clean (joinSlash (e # es)) else Join es)"

text \<open>\<^verbatim>\<open>filepath.Dir\<close>: the path up to and with its last slash, cleaned.\<close>

definition Dir :: "string \<Rightarrow> string" where
  "Dir path = Clean (rev (dropWhile (\<lambda>c. c \<noteq> CHR ''/'') (rev path)))"

text \<open>\<^verbatim>\<open>strings.Split(s, sep)\<close> for a separator of one byte.\<close>

fun Split :: "string \<Rightarrow> char \<Rightarrow> string list" where
  "Split [] sep = [[]]"
| "Split (c # s) sep =
     (if c = sep then [] # Split s sep
      else (case Split s sep of p # ps \<Rightarrow> (c # p) # ps | [] \<Rightarrow> [[c]]))"

section \<open>Extracting the archive: \<^verbatim>\<open>DownloadAndExtract\<close>\<close>

text \<open>
  \<^verbatim>\<open>internal/install\<close>.  A \<^verbatim>\<open>tar.Header\<close> with the fields the function reads;
  \<^verbatim>\<open>Typeflag\<close> is a byte and \<^verbatim>\<open>Mode\<close> an \<^verbatim>\<open>int64\<close>.
\<close>

record Header =
  HdrName :: string
  Typeflag :: char
  Mode :: int
  Linkname :: string

definition TypeReg :: char where "TypeReg = CHR ''0''"
definition TypeSymlink :: char where "TypeSymlink = CHR ''2''"
definition TypeDir :: char where "TypeDir = CHR ''5''"

text \<open>
  What the tar reader yields: for each call of \<^verbatim>\<open>tr.Next\<close> that returns no error
  the header (or \<^verbatim>\<open>nil\<close>) with the bytes of the entry, and then either
  \<^verbatim>\<open>io.EOF\<close> (\<open>None\<close>) or the error that ends the reading.
\<close>

record Archive =
  Entries :: "(Header option \<times> string) list"
  Ending :: "error option"

text \<open>
  The calls into package \<^verbatim>\<open>os\<close> are parameters: each takes the state \<open>'fs\<close> of the
  file system and returns its error, if any, and the new state.  \<open>Copy\<close> is
  \<^verbatim>\<open>io.Copy(f, tr)\<close> into the file just opened at the given path.
\<close>

record 'fs OS =
  MkdirAll :: "string \<Rightarrow> int \<Rightarrow> 'fs \<Rightarrow> error option \<times> 'fs"
  OpenFile :: "string \<Rightarrow> int \<Rightarrow> 'fs \<Rightarrow> error option \<times> 'fs"
  Copy :: "string \<Rightarrow> string \<Rightarrow> 'fs \<Rightarrow> error option \<times> 'fs"
  Symlink :: "string \<Rightarrow> string \<Rightarrow> 'fs \<Rightarrow> error option \<times> 'fs"

text \<open>\<^verbatim>\<open>os.FileMode(hdr.Mode)\<close> converts an \<^verbatim>\<open>int64\<close> to a \<^verbatim>\<open>uint32\<close>.\<close>

definition FileMode :: "int \<Rightarrow> int" where
  "FileMode m = m mod 2 ^ 32"

text \<open>
  The state of the loop: the file system, \<^verbatim>\<open>createdTopFolder\<close>, and the lines handed
  to \<^verbatim>\<open>logLine\<close>.
\<close>

record 'fs Extraction =
  disk :: 'fs
  createdTopFolder :: string
  logged :: "string list"

definition rejected :: "string \<Rightarrow> bool" where
  "rejected name = (name = ''.'' \<or> name = ''/'' \<or> HasPrefix name ''..'')"

definition symlinkWarning :: "string \<Rightarrow> string \<Rightarrow> error \<Rightarrow> string" where
  "symlinkWarning targetPath link err =
     ''Symlink create failed for '' @ targetPath @ '' -> '' @ link @ '': '' @ Error err @
     '' (continuing)''"

text \<open>
  One iteration of the loop for a header that is not \<^verbatim>\<open>nil\<close>.  The first component
  of the result is the error the function returns with, \<open>None\<close> when the loop goes on.
\<close>

definition extractEntry ::
  "'fs OS \<Rightarrow> string \<Rightarrow> Header \<Rightarrow> string \<Rightarrow> 'fs Extraction \<Rightarrow> error option \<times> 'fs Extraction" where
  "extractEntry os destRoot hdr content st =
     (let name = Clean (HdrName hdr) in
      if rejected name then (None, st)
      else
        (let parts = Split name CHR ''/'';
             st = (if createdTopFolder st = [] \<and> length parts > 0
                   then st\<lparr>createdTopFolder := parts ! 0\<rparr> else st);
             targetPath = Join [destRoot, name]
         in if Typeflag hdr = TypeDir then
              (case MkdirAll os targetPath (FileMode (Mode hdr)) (disk st) of
                 (Some err, d) \<Rightarrow> (Some err, st\<lparr>disk := d\<rparr>)
               | (None, d) \<Rightarrow> (None, st\<lparr>disk := d\<rparr>))
            else if Typeflag hdr = TypeReg then
              (case MkdirAll os (Dir targetPath) 493 (disk st) of
                 (Some err, d) \<Rightarrow> (Some err, st\<lparr>disk := d\<rparr>)
               | (None, d) \<Rightarrow>
                   (case OpenFile os targetPath (FileMode (Mode hdr)) d of
                      (Some err, d) \<Rightarrow> (Some err, st\<lparr>disk := d\<rparr>)
                    | (None, d) \<Rightarrow>
                        (case Copy os targetPath content d of
                           (Some err, d) \<Rightarrow> (Some err, st\<lparr>disk := d\<rparr>)
                         | (None, d) \<Rightarrow> (None, st\<lparr>disk := d\<rparr>))))
            else if Typeflag hdr = TypeSymlink then
              (case MkdirAll os (Dir targetPath) 493 (disk st) of
                 (Some err, d) \<Rightarrow> (Some err, st\<lparr>disk := d\<rparr>)
               | (None, d) \<Rightarrow>
                   (let link = Clean (Linkname hdr);
                        link = (if HasPrefix link ''..'' then TrimPrefix link ''../'' else link)
                    in case Symlink os link targetPath d of
                         (Some err, d) \<Rightarrow>
                           (None, st\<lparr>disk := d,
                                     logged := logged st @ [symlinkWarning targetPath link err]\<rparr>)
                       | (None, d) \<Rightarrow> (None, st\<lparr>disk := d\<rparr>)))
            else (None, st)))"

text \<open>The loop over the entries, up to its \<^verbatim>\<open>break\<close> or \<^verbatim>\<open>return\<close>.\<close>

fun extractLoop ::
  "'fs OS \<Rightarrow> string \<Rightarrow> (Header option \<times> string) list \<Rightarrow> error option \<Rightarrow> 'fs Extraction \<Rightarrow>
   error option \<times> 'fs Extraction" where
  "extractLoop os destRoot [] ending st =
     (case ending of
        None \<Rightarrow> (None, st)
      | Some err \<Rightarrow> (Some (Errorf (''read tar: '' @ Error err)), st))"
| "extractLoop os destRoot ((None, content) # rest) ending st =
     extractLoop os destRoot rest ending st"
| "extractLoop os destRoot ((Some hdr, content) # rest) ending st =
     (case extractEntry os destRoot hdr content st of
        (Some err, st') \<Rightarrow> (Some err, st')
      | (None, st') \<Rightarrow> extractLoop os destRoot rest ending st')"

definition noTopFolder :: error where
  "noTopFolder = Errorf ''unexpected archive layout (no top folder)''"

text \<open>
  The progress bar.  \<open>reads\<close> are the lengths of the chunks written to the tee's writer.
  \<^verbatim>\<open>bytesRead\<close> is an \<^verbatim>\<open>int64\<close>, so its addition wraps.  \<open>rnd\<close> is the rounding of
  a real number to a \<^verbatim>\<open>float64\<close>, applied by both conversions and by the division.
  \<^verbatim>\<open>update\<close> is run where it is handed to \<^verbatim>\<open>fyne.Do\<close>.
\<close>

definition wrap64 :: "int \<Rightarrow> int" where
  "wrap64 x = (x + 2 ^ 63) mod 2 ^ 64 - 2 ^ 63"

definition fraction :: "(real \<Rightarrow> real) \<Rightarrow> int \<Rightarrow> int \<Rightarrow> real" where
  "fraction rnd bytesRead contentLen = rnd (rnd (of_int bytesRead) / rnd (of_int contentLen))"

fun tee :: "(real \<Rightarrow> real) \<Rightarrow> int \<Rightarrow> int \<Rightarrow> nat list \<Rightarrow> real list" where
  "tee rnd contentLen bytesRead [] = []"
| "tee rnd contentLen bytesRead (n # reads) =
     (let bytesRead = wrap64 (bytesRead + int n)
      in (if contentLen > 0 then [fraction rnd bytesRead contentLen] else []) @
         tee rnd contentLen bytesRead reads)"

definition contentLength :: "Response \<Rightarrow> int \<Rightarrow> int" where
  "contentLength resp sizeHint = (if ContentLength resp \<le> 0 then sizeHint else ContentLength resp)"

text \<open>
  The whole function.  \<open>got\<close> is what \<^verbatim>\<open>http.DefaultClient.Do\<close> returns, \<open>untar\<close>
  what the gzip and tar readers make of the body (\<open>Inl\<close> when \<^verbatim>\<open>gzip.NewReader\<close>
  fails).  The result is the error returned, the state, and the values set on the bar.
\<close>

definition DownloadAndExtract ::
  "'fs OS \<Rightarrow> (real \<Rightarrow> real) \<Rightarrow> error + Response \<Rightarrow> (string \<Rightarrow> error + Archive) \<Rightarrow> nat list \<Rightarrow>
   int \<Rightarrow> string \<Rightarrow> 'fs Extraction \<Rightarrow> error option \<times> 'fs Extraction \<times> real list" where
  "DownloadAndExtract os rnd got untar reads sizeHint destRoot st =
     (case got of
        Inl err \<Rightarrow> (Some err, st, [])
      | Inr resp \<Rightarrow>
          if StatusCode resp < 200 \<or> StatusCode resp \<ge> 300
          then (Some (Errorf (''download failed: '' @ Status resp)), st, [])
          else
            (let bar = tee rnd (contentLength resp sizeHint) 0 reads in
             case untar (RespBody resp) of
               Inl err \<Rightarrow> (Some (Errorf (''gzip open: '' @ Error err)), st, bar)
             | Inr archive \<Rightarrow>
                 (case extractLoop os destRoot (Entries archive) (Ending archive)
                         (st\<lparr>createdTopFolder := []\<rparr>) of
                    (Some err, st') \<Rightarrow> (Some err, st', bar)
                  | (None, st') \<Rightarrow>
                      if createdTopFolder st' = [] then (Some noTopFolder, st', bar)
                      else (None,
                            st'\<lparr>logged := logged st' @
                               [''Extracted: '' @ Join [destRoot, createdTopFolder st']]\<rparr>,
                            bar))))"

text \<open>
  Readings used to state properties of the loop.  An element of the archive is skipped
  when its header is there and its cleaned name is rejected.  For an entry that is not
  skipped, \<open>targetOf\<close> is its \<^verbatim>\<open>targetPath\<close>, \<open>linkOf\<close> the target given to
  \<^verbatim>\<open>os.Symlink\<close>, and \<open>withTop\<close> the state after \<^verbatim>\<open>createdTopFolder\<close> is set.
  \<open>topFolderOf\<close> is the first segment of the first entry that is not skipped and whose
  cleaned name has a first segment that is not empty.
\<close>

definition skipped :: "Header option \<times> string \<Rightarrow> bool" where
  "skipped e = (case fst e of None \<Rightarrow> False | Some hdr \<Rightarrow> rejected (Clean (HdrName hdr)))"

definition dropSkipped :: "(string \<Rightarrow> error + Archive) \<Rightarrow> string \<Rightarrow> error + Archive" where
  "dropSkipped untar body =
     (case untar body of
        Inl err \<Rightarrow> Inl err
      | Inr archive \<Rightarrow> Inr (archive\<lparr>Entries := filter (\<lambda>e. \<not> skipped e) (Entries archive)\<rparr>))"

definition targetOf :: "string \<Rightarrow> Header \<Rightarrow> string" where
  "targetOf destRoot hdr = Join [destRoot, Clean (HdrName hdr)]"

definition linkOf :: "Header \<Rightarrow> string" where
  "linkOf hdr =
     (if HasPrefix (Clean (Linkname hdr)) ''..'' then TrimPrefix (Clean (Linkname hdr)) ''../''
      else Clean (Linkname hdr))"

definition withTop :: "Header \<Rightarrow> 'fs Extraction \<Rightarrow> 'fs Extraction" where
  "withTop hdr st =
     (if createdTopFolder st = [] then st\<lparr>createdTopFolder := Split (Clean (HdrName hdr)) CHR ''/'' ! 0\<rparr>
      else st)"

fun topFolderOf :: "(Header option \<times> string) list \<Rightarrow> string" where
  "topFolderOf [] = []"
| "topFolderOf ((None, content) # rest) = topFolderOf rest"
| "topFolderOf ((Some hdr, content) # rest) =
     (if rejected (Clean (HdrName hdr)) \<or> Split (Clean (HdrName hdr)) CHR ''/'' ! 0 = []
      then topFolderOf rest
      else Split (Clean (HdrName hdr)) CHR ''/'' ! 0)"

section \<open>A slice of thirteen elements in \<^verbatim>\<open>pdqsortCmpFunc\<close>\<close>

text \<open>
  For a slice longer than twelve, \<^verbatim>\<open>pdqsortCmpFunc\<close> chooses a pivot, tests with
  \<^verbatim>\<open>partialInsertionSortCmpFunc\<close> whether a slice that looks sorted is sorted,
  partitions around the pivot, calls itself on the shorter part and goes round its loop
  with the longer.  With thirteen elements each part has at most twelve, so both are
  sorted by insertion.  The functions of the library on that path are written out next;
  \<open>a\<close> and \<open>b\<close> bound the range \<^verbatim>\<open>data[a:b]\<close>.
\<close>

datatype sortedHint = unknownHint | increasingHint | decreasingHint

definition order2CmpFunc ::
  "('a \<Rightarrow> 'a \<Rightarrow> int) \<Rightarrow> 'a list \<Rightarrow> nat \<Rightarrow> nat \<Rightarrow> nat \<Rightarrow> nat \<times> nat \<times> nat" where
  "order2CmpFunc cmp data a b swaps =
     (if cmp (data ! b) (data ! a) < 0 then (b, a, swaps + 1) else (a, b, swaps))"

definition medianCmpFunc ::
  "('a \<Rightarrow> 'a \<Rightarrow> int) \<Rightarrow> 'a list \<Rightarrow> nat \<Rightarrow> nat \<Rightarrow> nat \<Rightarrow> nat \<Rightarrow> nat \<times> nat" where
  "medianCmpFunc cmp data a b c swaps =
     (case order2CmpFunc cmp data a b swaps of (a, b, swaps) \<Rightarrow>
      case order2CmpFunc cmp data b c swaps of (b, c, swaps) \<Rightarrow>
      case order2CmpFunc cmp data a b swaps of (a, b, swaps) \<Rightarrow> (b, swaps))"

definition medianAdjacentCmpFunc ::
  "('a \<Rightarrow> 'a \<Rightarrow> int) \<Rightarrow> 'a list \<Rightarrow> nat \<Rightarrow> nat \<Rightarrow> nat \<times> nat" where
  "medianAdjacentCmpFunc cmp data a swaps = medianCmpFunc cmp data (a - 1) a (a + 1) swaps"

text \<open>\<^verbatim>\<open>shortestNinther = 50\<close>, \<^verbatim>\<open>maxSwaps = 4 * 3\<close>.\<close>

definition choosePivotCmpFunc ::
  "('a \<Rightarrow> 'a \<Rightarrow> int) \<Rightarrow> 'a list \<Rightarrow> nat \<Rightarrow> nat \<Rightarrow> nat \<times> sortedHint" where
  "choosePivotCmpFunc cmp data a b =
     (let l = b - a;
          i = a + l div 4 * 1;
          j = a + l div 4 * 2;
          k = a + l div 4 * 3;
          (j, swaps) =
            (if l \<ge> 8 then
               (if l \<ge> 50 then
                  (case medianAdjacentCmpFunc cmp data i 0 of (i, swaps) \<Rightarrow>
                   case medianAdjacentCmpFunc cmp data j swaps of (j, swaps) \<Rightarrow>
                   case medianAdjacentCmpFunc cmp data k swaps of (k, swaps) \<Rightarrow>
                     medianCmpFunc cmp data i j k swaps)
                else medianCmpFunc cmp data i j k 0)
             else (j, 0))
      in (j, if swaps = 0 then increasingHint
             else if swaps = 4 * 3 then decreasingHint
             else unknownHint))"

text \<open>
  \<^verbatim>\<open>partialInsertionSortCmpFunc\<close> on a range shorter than
  \<^verbatim>\<open>shortestShifting = 50\<close>: it walks up while no element is less than the one
  before it, reports whether it reached \<open>b\<close>, and moves nothing.
\<close>

function ascending :: "('a \<Rightarrow> 'a \<Rightarrow> int) \<Rightarrow> 'a list \<Rightarrow> nat \<Rightarrow> nat \<Rightarrow> nat" where
  "ascending cmp data i b =
     (if i < b \<and> \<not> cmp (data ! i) (data ! (i - 1)) < 0 then ascending cmp data (i + 1) b else i)"
  by pat_completeness auto
termination
  by (relation "measure (\<lambda>(cmp, data, i, b). b - i)") auto

declare ascending.simps [simp del]

definition partialInsertionSortCmpFunc :: "('a \<Rightarrow> 'a \<Rightarrow> int) \<Rightarrow> 'a list \<Rightarrow> nat \<Rightarrow> nat \<Rightarrow> bool" where
  "partialInsertionSortCmpFunc cmp data a b = (ascending cmp data (a + 1) b = b)"

text \<open>
  \<^verbatim>\<open>partitionCmpFunc\<close>.  Its indices \<open>i\<close> and \<open>j\<close> are of type \<^verbatim>\<open>int\<close>, and
  \<open>j\<close> can come to stand one below \<open>i\<close>.  The two inner loops:
  \<^verbatim>\<open>for i <= j && cmp(data[i], data[a]) < 0 { i++ }\<close> and
  \<^verbatim>\<open>for i <= j && !(cmp(data[j], data[a]) < 0) { j-- }\<close>.
\<close>

function scanUp :: "('a \<Rightarrow> 'a \<Rightarrow> int) \<Rightarrow> 'a list \<Rightarrow> nat \<Rightarrow> int \<Rightarrow> int \<Rightarrow> int" where
  "scanUp cmp data a i j =
     (if i \<le> j \<and> cmp (data ! nat i) (data ! a) < 0 then scanUp cmp data a (i + 1) j else i)"
  by pat_completeness auto
termination
  by (relation "measure (\<lambda>(cmp, data, a, i, j). nat (j + 1 - i))") auto

declare scanUp.simps [simp del]

function scanDown :: "('a \<Rightarrow> 'a \<Rightarrow> int) \<Rightarrow> 'a list \<Rightarrow> nat \<Rightarrow> int \<Rightarrow> int \<Rightarrow> int" where
  "scanDown cmp data a i j =
     (if i \<le> j \<and> \<not> cmp (data ! nat j) (data ! a) < 0 then scanDown cmp data a i (j - 1) else j)"
  by pat_completeness auto
termination
  by (relation "measure (\<lambda>(cmp, data, a, i, j). nat (j + 1 - i))") auto

declare scanDown.simps [simp del]

text \<open>The loop that follows the first exchange; the result is the slice and \<open>j\<close>.\<close>

function partitionLoop ::
  "('a \<Rightarrow> 'a \<Rightarrow> int) \<Rightarrow> 'a list \<Rightarrow> nat \<Rightarrow> int \<Rightarrow> int \<Rightarrow> 'a list \<times> int" where
  "partitionLoop cmp data a i j =
     (let i' = scanUp cmp data a i j;
          j' = scanDown cmp data a i' j
      in if i' > j' then (data, j')
         else partitionLoop cmp (swap data (nat i') (nat j')) a (i' + 1) (j' - 1))"
  by pat_completeness auto
termination
proof (relation "measure (\<lambda>(cmp, data, a, i, j). nat (j + 1 - i))")
  show "wf (measure (\<lambda>(cmp, data, a, i, j). nat (j + 1 - i)))"
    by simp
next
  fix cmp :: "'a \<Rightarrow> 'a \<Rightarrow> int" and data :: "'a list" and a :: nat and i j i' j' :: int
  assume i': "i' = scanUp cmp data a i j" and j': "j' = scanDown cmp data a i' j"
    and le: "\<not> j' < i'"
  have "k \<le> scanUp cmp data a k j" for k
    by (induction cmp data a k j rule: scanUp.induct) (subst scanUp.simps, auto)
  with i' have up: "i \<le> i'" by simp
  have "scanDown cmp data a i' k \<le> k" for k
    by (induction cmp data a i' k rule: scanDown.induct) (subst scanDown.simps, auto)
  with j' have down: "j' \<le> j" by simp
  from up down le
  show "((cmp, swap data (nat i') (nat j'), a, i' + 1, j' - 1), (cmp, data, a, i, j))
      \<in> measure (\<lambda>(cmp, data, a, i, j). nat (j + 1 - i))"
    by simp
qed

declare partitionLoop.simps [simp del]

definition partitionCmpFunc ::
  "('a \<Rightarrow> 'a \<Rightarrow> int) \<Rightarrow> 'a list \<Rightarrow> nat \<Rightarrow> nat \<Rightarrow> nat \<Rightarrow> 'a list \<times> nat \<times> bool" where
  "partitionCmpFunc cmp data a b pivot =
     (let data = swap data a pivot;
          i = scanUp cmp data a (int a + 1) (int b - 1);
          j = scanDown cmp data a i (int b - 1)
      in if i > j then (swap data (nat j) a, nat j, True)
         else (case partitionLoop cmp (swap data (nat i) (nat j)) a (i + 1) (j - 1) of
                 (data, j) \<Rightarrow> (swap data (nat j) a, nat j, False)))"

text \<open>
  \<^verbatim>\<open>pdqsortCmpFunc(data, 0, 13, bits.Len(13), cmp)\<close>: the limit is 4, and
  \<^verbatim>\<open>wasBalanced\<close> and \<^verbatim>\<open>wasPartitioned\<close> are true, so neither
  \<^verbatim>\<open>heapSortCmpFunc\<close> nor \<^verbatim>\<open>breakPatternsCmpFunc\<close> is reached; with fewer than
  fifty elements the hint is never \<^verbatim>\<open>decreasingHint\<close>; and \<open>a\<close> is 0, so
  \<^verbatim>\<open>partitionEqualCmpFunc\<close> is not called.  The call on the shorter part comes first.
\<close>

definition pdqsortCmpFunc13 :: "('a \<Rightarrow> 'a \<Rightarrow> int) \<Rightarrow> 'a list \<Rightarrow> 'a list" where
  "pdqsortCmpFunc13 cmp data =
     (let a = 0; b = length data in
      case choosePivotCmpFunc cmp data a b of (pivot, hint) \<Rightarrow>
        if hint = increasingHint \<and> partialInsertionSortCmpFunc cmp data a b then data
        else
          (case partitionCmpFunc cmp data a b pivot of (data, mid, alreadyPartitioned) \<Rightarrow>
             (let leftLen = mid - a; rightLen = b - mid in
              if leftLen < rightLen
              then insertionSortCmpFunc cmp (insertionSortCmpFunc cmp data a mid) (mid + 1) b
              else insertionSortCmpFunc cmp (insertionSortCmpFunc cmp data (mid + 1) b) a mid)))"

text \<open>
  Readings used to state properties of \<^verbatim>\<open>PickLinuxTarball\<close>: the tier that wins,
  and what the documentation of \<^verbatim>\<open>slices.SortFunc\<close> promises of a slice longer
  than twelve, namely the same elements in an order in which \<^verbatim>\<open>cmp\<close> never puts a
  later element before an earlier one.
\<close>

definition winningTier :: "Asset list \<Rightarrow> Asset list" where
  "winningTier assets =
     (if \<exists>a \<in> set assets. isTarGz a \<and> isGEProton a
      then filter (\<lambda>a. isTarGz a \<and> isGEProton a) assets
      else filter isTarGz assets)"

definition sortsBySize :: "((Asset \<Rightarrow> Asset \<Rightarrow> int) \<Rightarrow> Asset list \<Rightarrow> Asset list) \<Rightarrow> bool" where
  "sortsBySize long =
     (\<forall>x. 12 < length x \<longrightarrow>
        mset (long bySize x) = mset x \<and>
        sorted_wrt (\<lambda>a b. \<not> bySize b a < 0) (long bySize x))"

text \<open>
  The insertion sort read as a function on lists, for the proofs: \<open>acc\<close> is the sorted
  part of the slice, last element first, and \<open>insRev\<close> lets \<open>x\<close> pass the elements it
  compares less than.
\<close>

fun insRev :: "('a \<Rightarrow> 'a \<Rightarrow> int) \<Rightarrow> 'a \<Rightarrow> 'a list \<Rightarrow> 'a list" where
  "insRev cmp x [] = [x]"
| "insRev cmp x (y # ys) = (if cmp x y < 0 then y # insRev cmp x ys else x # y # ys)"

section \<open>Concrete values\<close>

text \<open>Assets, releases and a paged API on which the functions are evaluated.\<close>

definition asset :: "string \<Rightarrow> int \<Rightarrow> Asset" where
  "asset name sz = \<lparr>AssetName = name, BrowserDownloadURL = [], Size = sz, ContentType = []\<rparr>"

definition release :: "string \<Rightarrow> bool \<Rightarrow> Asset list \<Rightarrow> Release" where
  "release tag d as =
     \<lparr>TagName = tag, RelName = tag, Prerelease = False, Assets = as, Draft = d,
      Body = [], HTMLURL = [], Created = 0, Published = 0\<rparr>"

text \<open>
  A response body is read as a string of one-letter keys: \<open>decodeKeys\<close> turns each
  letter into the release that \<open>table\<close> gives for it.  \<open>serve items\<close> answers page
  \<open>p\<close> with the \<open>p\<close>-th block of \<open>n\<close> keys of \<open>items\<close> and status 200.
\<close>

definition decodeKeys :: "(char \<Rightarrow> Release) \<Rightarrow> string \<Rightarrow> error + Release list" where
  "decodeKeys table body = Inr (map table body)"

definition ok :: "string \<Rightarrow> Response" where
  "ok body = \<lparr>StatusCode = 200, Status = ''200 OK'', ContentLength = - 1, RespBody = body\<rparr>"

definition serve :: "string \<Rightarrow> nat \<Rightarrow> nat \<Rightarrow> error + Response" where
  "serve items n p = Inr (ok (take n (drop ((p - 1) * n) items)))"

definition geTable :: "char \<Rightarrow> Release" where
  "geTable c =
     (if c = CHR ''d'' then release ''GE-Proton9-6'' True [asset ''GE-Proton9-6.tar.gz'' 400]
      else if c = CHR ''n'' then release ''GE-Proton9-5'' False [asset ''GE-Proton9-5.sha512sum'' 1]
      else release (''GE-Proton9-'' @ [c]) False [asset (''GE-Proton9-'' @ [c] @ ''.tar.gz'') 400])"

definition stableLong :: "('a \<Rightarrow> 'a \<Rightarrow> int) \<Rightarrow> 'a list \<Rightarrow> 'a list" where
  "stableLong cmp x = insertionSortCmpFunc cmp x 0 (length x)"

definition ui0 :: UI where
  "ui0 = \<lparr>currentInstalled = [''GE-Proton9-4'', ''ge-proton9-2''], availableReleases = [],
          currentAvailable = [], selectedAvailable = 0, logView = [], dialogs = []\<rparr>"

text \<open>
  \<^verbatim>\<open>strings.ToLower\<close> on names whose only runes beyond ASCII are U+00C9 and U+00E9,
  the capital and the small e with acute accent (the bytes C3 89 and C3 A9).
\<close>

fun lowerLatin :: "string \<Rightarrow> string" where
  "lowerLatin [] = []"
| "lowerLatin [c] = [lowerByte c]"
| "lowerLatin (c # d # s) =
     (if c = CHR 0xC3 \<and> d = CHR 0x89 then CHR 0xC3 # CHR 0xA9 # lowerLatin s
      else lowerByte c # lowerLatin (d # s))"

text \<open>
  An API whose first page is served from \<open>keys\<close> and whose later pages are all
  answered with the response \<open>r\<close>; two failing responses.
\<close>

definition serveThen :: "string \<Rightarrow> Response \<Rightarrow> nat \<Rightarrow> nat \<Rightarrow> error + Response" where
  "serveThen keys r n p = (if p = 1 then serve keys n p else Inr r)"

definition forbidden :: Response where
  "forbidden =
     \<lparr>StatusCode = 403, Status = ''403 Forbidden'', ContentLength = - 1,
      RespBody = ''API rate limit exceeded''\<rparr>"

definition badGateway :: Response where
  "badGateway =
     \<lparr>StatusCode = 502, Status = ''502 Bad Gateway'', ContentLength = - 1,
      RespBody = '' upstream down '' @ [CHR 0xC2, CHR 0xA0, CHR 0x0A]\<rparr>"

definition fullPage :: string where
  "fullPage = replicate 100 CHR ''a''"

text \<open>
  A file system that is the list of the calls made on it.  Every call succeeds, except
  that \<^verbatim>\<open>os.Symlink\<close> fails when \<open>symlinksFail\<close> is set.
\<close>

datatype call =
  CallMkdirAll string int
| CallOpenFile string int
| CallCopy string string
| CallSymlink string string

definition recorder :: "bool \<Rightarrow> call list OS" where
  "recorder symlinksFail =
     \<lparr>MkdirAll = (\<lambda>path perm d. (None, d @ [CallMkdirAll path perm])),
      OpenFile = (\<lambda>path perm d. (None, d @ [CallOpenFile path perm])),
      Copy = (\<lambda>path content d. (None, d @ [CallCopy path content])),
      Symlink = (\<lambda>link path d.
        (if symlinksFail then Some (Failure ''operation not permitted'') else None,
         d @ [CallSymlink link path]))\<rparr>"

definition st0 :: "call list Extraction" where
  "st0 = \<lparr>disk = [], createdTopFolder = [], logged = []\<rparr>"

definition entry :: "string \<Rightarrow> char \<Rightarrow> string \<Rightarrow> string \<Rightarrow> Header option \<times> string" where
  "entry name flag link content =
     (Some \<lparr>HdrName = name, Typeflag = flag, Mode = 493, Linkname = link\<rparr>, content)"

definition tarball :: "(Header option \<times> string) list \<Rightarrow> string \<Rightarrow> error + Archive" where
  "tarball es body = Inr \<lparr>Entries = es, Ending = None\<rparr>"

definition exact :: "real \<Rightarrow> real" where
  "exact x = x"

definition geArchive :: "(Header option \<times> string) list" where
  "geArchive =
     [entry ''GE-Proton9-5/'' TypeDir [] [],
      entry ''../../etc/passwd'' TypeReg [] ''root::0:0'',
      entry ''GE-Proton9-5/bin/run'' TypeReg [] ''#!/bin/sh'']"

definition linkArchive :: "(Header option \<times> string) list" where
  "linkArchive =
     [entry ''GE-Proton9-5/lib'' TypeSymlink ''lib64'' [],
      entry ''GE-Proton9-5/dist'' TypeSymlink ''../files'' []]"

text \<open>
  Thirteen archives of one release, the first two of them of the largest size.
\<close>

definition thirteen :: "Asset list" where
  "thirteen =
     [asset ''GE-Proton9-5.tar.gz'' 9, asset ''GE-Proton9-5-debug.tar.gz'' 9,
      asset ''GE-Proton9-5-c.tar.gz'' 5, asset ''GE-Proton9-5-d.tar.gz'' 2,
      asset ''GE-Proton9-5-e.tar.gz'' 5, asset ''GE-Proton9-5-f.tar.gz'' 5,
      asset ''GE-Proton9-5-g.tar.gz'' 1, asset ''GE-Proton9-5-h.tar.gz'' 5,
      asset ''GE-Proton9-5-i.tar.gz'' 5, asset ''GE-Proton9-5-j.tar.gz'' 3,
      asset ''GE-Proton9-5-k.tar.gz'' 5, asset ''GE-Proton9-5-l.tar.gz'' 5,
      asset ''GE-Proton9-5-m.tar.gz'' 5]"

text \<open>Three archives, the last two of the same size; a list with one archive only.\<close>

definition three :: "Asset list" where
  "three =
     [asset ''x-ge-proton.tar.gz'' 100, asset ''y-ge-proton.tar.gz'' 500,
      asset ''z-ge-proton.tar.gz'' 500]"

definition fallback :: "Asset list" where
  "fallback = [asset ''readme.txt'' 0, asset ''build.tar.gz'' 10]"

section \<open>The filter of the catalogue\<close>

lemma filterLoop_inv:
  "n \<le> i \<Longrightarrow> i \<le> length arr \<Longrightarrow>
   filterLoop long arr i n = take n arr @ filter (catalogEligible long) (drop i arr)"
proof (induction long arr i n rule: filterLoop.induct)
  case (1 long arr i n)
  show ?case
  proof (cases "i < length arr")
    case False
    with "1.prems" show ?thesis
      by (subst filterLoop.simps) simp
  next
    case True
    then have dr: "drop i arr = arr ! i # drop (Suc i) arr"
      by (simp add: Cons_nth_drop_Suc)
    show ?thesis
    proof (cases "Draft (arr ! i)")
      case d: True
      with True "1.IH"(1) [OF True refl d] "1.prems" show ?thesis
        by (subst filterLoop.simps) (simp add: dr catalogEligible_def [of long "arr ! i"])
    next
      case d: False
      show ?thesis
      proof (cases "snd (PickLinuxTarball long (Assets (arr ! i)))")
        case p: True
        have "filterLoop long (arr[n := arr ! i]) (i + 1) (n + 1) =
              take (n + 1) (arr[n := arr ! i]) @
              filter (catalogEligible long) (drop (i + 1) (arr[n := arr ! i]))"
          using "1.IH"(2) [OF True refl d p] "1.prems" True by simp
        moreover have "take (n + 1) (arr[n := arr ! i]) = take n arr @ [arr ! i]"
          using "1.prems" True by (simp add: take_Suc_conv_app_nth)
        moreover have "drop (i + 1) (arr[n := arr ! i]) = drop (Suc i) arr"
          using "1.prems" by simp
        ultimately show ?thesis
          using True d p
          by (subst filterLoop.simps) (simp add: dr catalogEligible_def [of long "arr ! i"])
      next
        case p: False
        with True d "1.IH"(3) [OF True refl d p] "1.prems" show ?thesis
          by (subst filterLoop.simps) (simp add: dr catalogEligible_def [of long "arr ! i"])
      qed
    qed
  qed
qed

lemma filterLoop_filter: "filterLoop long all 0 0 = filter (catalogEligible long) all"
  using filterLoop_inv [of 0 0 all long] by simp

lemma FetchAllReleases_drafts:
  assumes "FetchAllReleases long Do decode = Some (rels, err)"
  shows "\<forall>r \<in> set rels. \<not> Draft r"
proof (cases "fetchPages Do decode 1 [] []")
  case None
  with assms show ?thesis by (simp add: FetchAllReleases_def)
next
  case (Some res)
  obtain reqs all e where res: "res = (reqs, all, e)" by (cases res)
  show ?thesis
  proof (cases e)
    case None
    with assms Some res have "rels = filter (catalogEligible long) all"
      by (simp add: FetchAllReleases_def filterLoop_filter)
    then show ?thesis by (simp add: catalogEligible_def)
  next
    case (Some a)
    with assms \<open>fetchPages Do decode 1 [] [] = Some res\<close> res show ?thesis
      by (simp add: FetchAllReleases_def)
  qed
qed

section \<open>Installed folders and the available list\<close>

lemma lookupBool_fold:
  "lookupBool (fold (\<lambda>inst m. m(toLower inst \<mapsto> True)) names m0) k =
     (k \<in> toLower ` set names \<or> lookupBool m0 k)"
  by (induction names arbitrary: m0) (auto simp: lookupBool_def)

lemma lookupBool_installedSet:
  "lookupBool (installedSet toLower names) k = (k \<in> toLower ` set names)"
  by (simp add: installedSet_def lookupBool_fold) (simp add: lookupBool_def)

lemma loadAvailable_ok:
  "availableReleases (loadAvailable toLower (rels, None) ui) =
     filter (\<lambda>r. \<not> sameFold toLower (currentInstalled ui) (TagName r)) rels"
  by (auto simp add: loadAvailable_def Let_def lookupBool_installedSet sameFold_def image_iff
      intro!: filter_cong)

lemma loadAvailable_subset:
  "set (availableReleases (loadAvailable toLower res ui)) \<subseteq>
     set (fst res) \<union> set (availableReleases ui)"
  by (cases res) (auto simp: loadAvailable_def Let_def split: option.splits)

text \<open>
  Claim C5.  Whatever the API answers, a run of \<^verbatim>\<open>FetchAllReleases\<close> that returns
  hands back no release whose \<^verbatim>\<open>draft\<close> flag is set; and \<^verbatim>\<open>loadAvailable\<close>,
  the only writer of the list the installer takes its release from, keeps that list
  free of drafts when it stores such a result.
\<close>

theorem catalogue_has_no_draft:
  assumes "FetchAllReleases long Do decode = Some res"
  shows "(\<forall>r \<in> set (fst res). \<not> Draft r) \<and>
         ((\<forall>r \<in> set (availableReleases ui). \<not> Draft r) \<longrightarrow>
          (\<forall>r \<in> set (availableReleases (loadAvailable toLower res ui)). \<not> Draft r))"
proof -
  have a: "\<forall>r \<in> set (fst res). \<not> Draft r"
    using FetchAllReleases_drafts [of long Do decode "fst res" "snd res"] assms by simp
  with loadAvailable_subset [of toLower res ui] show ?thesis by blast
qed

theorem catalogue_has_no_draft_witness:
  "FetchAllReleases stableLong (serve ''adb'') (decodeKeys geTable) =
     Some ([geTable CHR ''a'', geTable CHR ''b''], None) \<and>
   Draft (geTable CHR ''d'') \<and>
   \<not> Draft (geTable CHR ''a'') \<and> \<not> Draft (geTable CHR ''b'') \<and>
   availableReleases (loadAvailable ToLower ([geTable CHR ''a'', geTable CHR ''b''], None) ui0) =
     [geTable CHR ''a'', geTable CHR ''b'']"
proof -
  have pick: "\<And>c. c \<noteq> CHR ''d'' \<Longrightarrow> c \<noteq> CHR ''n'' \<Longrightarrow>
      snd (PickLinuxTarball stableLong (Assets (geTable c)))"
    by (simp add: PickLinuxTarball_def geTable_def release_def asset_def isTarGz_def
        isGEProton_def ToLower_def lowerByte_def HasSuffix_def HasPrefix_def Let_def)
  have pages: "fetchPages (serve ''adb'') (decodeKeys geTable) 1 [] [] =
      Some ([1], map geTable ''adb'', None)"
    by (subst fetchPages.simps)
       (simp add: serve_def ok_def readPage_def decodeKeys_def perPage_def)
  have run: "FetchAllReleases stableLong (serve ''adb'') (decodeKeys geTable) =
      Some ([geTable CHR ''a'', geTable CHR ''b''], None)"
    unfolding FetchAllReleases_def pages
    by (simp add: filterLoop_filter catalogEligible_def pick) (simp add: geTable_def release_def)
  have d: "Draft (geTable CHR ''d'')"
    by (simp add: geTable_def release_def)
  have l: "availableReleases (loadAvailable ToLower ([geTable CHR ''a'', geTable CHR ''b''], None) ui0) =
     [geTable CHR ''a'', geTable CHR ''b'']"
    by (simp add: loadAvailable_ok sameFold_def ui0_def geTable_def release_def
        ToLower_def lowerByte_def)
  from catalogue_has_no_draft [OF run, where ui = ui0 and toLower = ToLower] run d l show ?thesis
    by simp
qed

text \<open>
  Claim C9.  After a refresh whose fetch succeeded, the available releases are the
  fetched ones without those whose tag equals, up to the case of letters, the name of a
  folder in \<^verbatim>\<open>currentInstalled\<close>, in the order in which they were fetched; none of
  the releases kept has such a tag, the labels shown are those of the releases kept, and
  the list of installed folders is as it was.  Two names are equal up to the case of
  letters when \<^verbatim>\<open>strings.ToLower\<close> gives the same for both, whatever that function
  does to the letters beyond ASCII.
\<close>

theorem loadAvailable_hides_installed:
  "availableReleases (loadAvailable toLower (rels, None) ui) =
     filter (\<lambda>r. \<not> sameFold toLower (currentInstalled ui) (TagName r)) rels \<and>
   (\<forall>r \<in> set (availableReleases (loadAvailable toLower (rels, None) ui)).
      \<forall>inst \<in> set (currentInstalled ui). toLower inst \<noteq> toLower (TagName r)) \<and>
   currentAvailable (loadAvailable toLower (rels, None) ui) =
     map formatReleaseLabel (availableReleases (loadAvailable toLower (rels, None) ui)) \<and>
   currentInstalled (loadAvailable toLower (rels, None) ui) = currentInstalled ui"
proof -
  have "\<forall>r \<in> set (availableReleases (loadAvailable toLower (rels, None) ui)).
      \<forall>inst \<in> set (currentInstalled ui). toLower inst \<noteq> toLower (TagName r)"
    by (auto simp: loadAvailable_ok sameFold_def)
  moreover have "currentAvailable (loadAvailable toLower (rels, None) ui) =
     map formatReleaseLabel (availableReleases (loadAvailable toLower (rels, None) ui))"
    by (simp add: loadAvailable_def Let_def)
  moreover have "currentInstalled (loadAvailable toLower (rels, None) ui) = currentInstalled ui"
    by (simp add: loadAvailable_def Let_def)
  ultimately show ?thesis
    using loadAvailable_ok [of toLower rels ui] by simp
qed

text \<open>
  An instance with names of ASCII bytes, where \<^verbatim>\<open>strings.ToLower\<close> is \<^const>\<open>ToLower\<close>,
  and one with the folder \<^verbatim>\<open>GE-Proton\<close> followed by a small e with acute accent (the
  bytes C3 A9) and a tag with the capital letter (C3 89) instead, where
  \<^verbatim>\<open>strings.ToLower\<close> is \<^const>\<open>lowerLatin\<close>.
\<close>

theorem loadAvailable_hides_installed_witness:
  "availableReleases
     (loadAvailable ToLower ([release ''GE-Proton9-5'' False [], release ''GE-PROTON9-2'' False [],
                      release ''ge-proton9-4'' False [], release ''GE-Proton9-1'' False []], None) ui0) =
   [release ''GE-Proton9-5'' False [], release ''GE-Proton9-1'' False []] \<and>
   availableReleases
     (loadAvailable lowerLatin
        ([release (''GE-Proton'' @ [CHR 0xC3, CHR 0x89]) False [], release ''GE-Proton9-1'' False []],
         None)
        (ui0\<lparr>currentInstalled := [''GE-Proton'' @ [CHR 0xC3, CHR 0xA9]]\<rparr>)) =
   [release ''GE-Proton9-1'' False []]"
proof -
  have a: "availableReleases
     (loadAvailable ToLower ([release ''GE-Proton9-5'' False [], release ''GE-PROTON9-2'' False [],
                      release ''ge-proton9-4'' False [], release ''GE-Proton9-1'' False []], None) ui0) =
   [release ''GE-Proton9-5'' False [], release ''GE-Proton9-1'' False []]"
    using loadAvailable_hides_installed
      [of ToLower "[release ''GE-Proton9-5'' False [], release ''GE-PROTON9-2'' False [],
            release ''ge-proton9-4'' False [], release ''GE-Proton9-1'' False []]" ui0]
    by (simp add: sameFold_def ui0_def release_def ToLower_def lowerByte_def)
  have b: "availableReleases
     (loadAvailable lowerLatin
        ([release (''GE-Proton'' @ [CHR 0xC3, CHR 0x89]) False [], release ''GE-Proton9-1'' False []],
         None)
        (ui0\<lparr>currentInstalled := [''GE-Proton'' @ [CHR 0xC3, CHR 0xA9]]\<rparr>)) =
   [release ''GE-Proton9-1'' False []]"
    using loadAvailable_hides_installed
      [of lowerLatin
          "[release (''GE-Proton'' @ [CHR 0xC3, CHR 0x89]) False [], release ''GE-Proton9-1'' False []]"
          "ui0\<lparr>currentInstalled := [''GE-Proton'' @ [CHR 0xC3, CHR 0xA9]]\<rparr>"]
    by (simp add: sameFold_def ui0_def release_def lowerLatin.simps ToLower_def lowerByte_def)
  from a b show ?thesis by (rule conjI)
qed

section \<open>The paging loop\<close>

lemma loopState_run:
  "loopState Do decode page all reqs \<Longrightarrow>
   fetchPages Do decode 1 [] [] = fetchPages Do decode page all reqs"
proof (induction rule: loopState.induct)
  case first
  show ?case by simp
next
  case (nextPage page all reqs resp all')
  have "fetchPages Do decode page all reqs = fetchPages Do decode (page + 1) all' (reqs @ [page])"
    by (subst fetchPages.simps) (simp add: nextPage.hyps)
  with nextPage.IH show ?case by simp
qed

lemma fetchPages_403:
  "Do perPage page = Inr resp \<Longrightarrow> StatusCode resp = 403 \<Longrightarrow>
   fetchPages Do decode page all reqs = Some (reqs @ [page], all, Some rateLimited)"
  by (subst fetchPages.simps) (simp add: readPage_def)

lemma fetchPages_status:
  "Do perPage page = Inr resp \<Longrightarrow> StatusCode resp \<noteq> 403 \<Longrightarrow>
   StatusCode resp < 200 \<or> 300 \<le> StatusCode resp \<Longrightarrow>
   fetchPages Do decode page all reqs = Some (reqs @ [page], all, Some (apiError resp))"
  by (subst fetchPages.simps) (auto simp add: readPage_def)

lemma length_TrimLeftSpace: "length (TrimLeftSpace s) \<le> length s"
proof (induction s rule: TrimLeftSpace.induct)
  case (1 s)
  show ?case
  proof (cases "find (HasPrefix s) unicodeSpaces")
    case None
    then show ?thesis by (subst TrimLeftSpace.simps) simp
  next
    case (Some e)
    with 1 have "length (TrimLeftSpace (drop (length e) s)) \<le> length (drop (length e) s)"
      by simp
    with Some show ?thesis by (subst TrimLeftSpace.simps) simp
  qed
qed

lemma length_TrimRightSpace: "length (TrimRightSpace s) \<le> length s"
proof (induction s rule: TrimRightSpace.induct)
  case (1 s)
  show ?case
  proof (cases "find (HasSuffix s) unicodeSpaces")
    case None
    then show ?thesis by (subst TrimRightSpace.simps) simp
  next
    case (Some e)
    with 1 have "length (TrimRightSpace (take (length s - length e) s)) \<le>
        length (take (length s - length e) s)"
      by simp
    with Some show ?thesis by (subst TrimRightSpace.simps) simp
  qed
qed

lemma length_TrimSpace: "length (TrimSpace s) \<le> length s"
  using length_TrimRightSpace [of "TrimLeftSpace s"] length_TrimLeftSpace [of s]
  by (simp add: TrimSpace_def)

lemma Contains_self: "Contains (sub @ post) sub"
proof (cases "sub @ post")
  case Nil
  then show ?thesis by simp
next
  case (Cons c s)
  have "HasPrefix (sub @ post) sub" by (simp add: HasPrefix_def)
  with Cons show ?thesis by simp
qed

lemma Contains_append: "Contains (pre @ sub @ post) sub"
  by (induction pre) (auto simp: Contains_self)

lemma readPage_paged:
  assumes "200 \<le> StatusCode resp" "StatusCode resp < 300"
    and "decode (RespBody resp) = Inr rels"
  shows "readPage decode resp all = (all @ rels, None)"
  using assms by (auto simp: readPage_def)

lemma fetch_paged:
  assumes sp: "servesPaged Do decode items"
  shows "1 \<le> page \<Longrightarrow> (page - 1) * perPage \<le> length items \<Longrightarrow>
     all = take ((page - 1) * perPage) items \<Longrightarrow>
     fetchPages Do decode page all reqs =
       Some (reqs @ [page ..< length items div perPage + 2], items, None)"
proof (induction "length items div perPage + 1 - page" arbitrary: page all reqs rule: less_induct)
  case less
  let ?rels = "take perPage (drop ((page - 1) * perPage) items)"
  from sp obtain resp where resp: "Do perPage page = Inr resp"
    "200 \<le> StatusCode resp" "StatusCode resp < 300" "decode (RespBody resp) = Inr ?rels"
    unfolding servesPaged_def by blast
  have pp: "(page - 1) * perPage + perPage = page * perPage"
    using less.prems(1) by (cases page) simp_all
  have all': "all @ ?rels = take (page * perPage) items"
    using less.prems(3) pp by (simp add: take_add [symmetric])
  have rp: "readPage decode resp all = (take (page * perPage) items, None)"
    using readPage_paged [of resp decode ?rels all] resp(2,3,4) all' by simp
  show ?case
  proof (cases "length items < page * perPage")
    case True
    then have d: "length items div perPage = page - 1"
      using less.prems(1,2) by (simp add: perPage_def; arith?)
    have "[page ..< length items div perPage + 2] = [page]"
      using less.prems(1) by (simp add: d)
    with True resp(1) rp show ?thesis
      by (subst fetchPages.simps) simp
  next
    case False
    then have le: "page * perPage \<le> length items" by simp
    then have d: "page \<le> length items div perPage"
      by (simp add: perPage_def; arith?)
    have "fetchPages Do decode (page + 1) (take (page * perPage) items) (reqs @ [page]) =
        Some ((reqs @ [page]) @ [page + 1 ..< length items div perPage + 2], items, None)"
      using d le by (intro less.hyps) simp_all
    moreover have "[page ..< length items div perPage + 2] =
        page # [page + 1 ..< length items div perPage + 2]"
      using d by (simp add: upt_conv_Cons)
    ultimately show ?thesis
      using False resp(1) rp by (subst fetchPages.simps) simp
  qed
qed

lemma fetch_paged_start:
  assumes "servesPaged Do decode items"
  shows "fetchPages Do decode 1 [] [] = Some ([1 ..< length items div perPage + 2], items, None)"
  using fetch_paged [OF assms, of 1 "[]" "[]"] by simp

lemma servesPaged_serve: "servesPaged (serve keys) (decodeKeys table) (map table keys)"
  by (simp add: servesPaged_def serve_def ok_def decodeKeys_def take_map drop_map)

lemma ceilDiv_eq: "0 < d \<Longrightarrow> ceilDiv n d = (if d dvd n then n div d else n div d + 1)"
proof -
  assume d: "0 < d"
  have "\<lceil>real n / real d\<rceil> = \<lceil>of_int (int n) / of_int (int d) :: real\<rceil>" by simp
  also have "\<dots> = - (- int n div int d)" by (rule ceiling_divide_eq_div)
  also have "\<dots> = (if int n mod int d = 0 then int n div int d else int n div int d + 1)"
    using d by (simp add: zdiv_zminus1_eq_if)
  finally have "\<lceil>real n / real d\<rceil> = (if d dvd n then int (n div d) else int (n div d) + 1)"
    by (simp add: mod_eq_0_iff_dvd zdiv_int)
  moreover have "nat (int (n div d) + 1) = n div d + 1" by linarith
  ultimately show ?thesis by (simp add: ceilDiv_def)
qed

lemma loopState_second:
  "loopState (serveThen fullPage r) (decodeKeys geTable) 2 (map geTable fullPage) [1]"
proof -
  have len: "length fullPage = 100"
    by (simp add: fullPage_def)
  have a: "serveThen fullPage r perPage 1 = Inr (ok fullPage)"
    by (simp add: serveThen_def serve_def perPage_def len)
  have b: "readPage (decodeKeys geTable) (ok fullPage) [] = (map geTable fullPage, None)"
    by (simp add: readPage_def ok_def decodeKeys_def len)
  have c: "\<not> length (map geTable fullPage) < 1 * perPage"
    by (simp add: perPage_def len)
  have "loopState (serveThen fullPage r) (decodeKeys geTable) (1 + 1) (map geTable fullPage) ([] @ [1])"
    using loopState.first a b c by (rule loopState.nextPage)
  then show ?thesis
    by (simp only: one_add_one append_Nil)
qed

text \<open>
  Claim C7.  Whichever page request of the loop it answers, a response with status 403
  makes \<^verbatim>\<open>FetchAllReleases\<close> return no releases and the rate-limit error, whose
  message names \<^verbatim>\<open>GITHUB_TOKEN\<close> and is the message of no other status error; a
  response with any other status below 200 or from 300 on makes it return no releases
  and an error whose message is made of the status line and the trimmed first 4096
  bytes of the body.
\<close>

theorem page_status_errors:
  assumes "loopState Do decode page all reqs" and "Do perPage page = Inr resp"
  shows "(StatusCode resp = 403 \<longrightarrow>
            FetchAllReleases long Do decode = Some ([], Some rateLimited) \<and>
            Contains (Error rateLimited) ''GITHUB_TOKEN'' \<and>
            (\<forall>other. apiError other \<noteq> rateLimited)) \<and>
         (StatusCode resp \<noteq> 403 \<and> (StatusCode resp < 200 \<or> 300 \<le> StatusCode resp) \<longrightarrow>
            FetchAllReleases long Do decode = Some ([], Some (apiError resp)) \<and>
            Error (apiError resp) =
              ''GitHub API error: '' @ Status resp @ '': '' @ TrimSpace (take 4096 (RespBody resp)) \<and>
            length (TrimSpace (take 4096 (RespBody resp))) \<le> 4096)"
proof -
  have run: "fetchPages Do decode 1 [] [] = fetchPages Do decode page all reqs"
    using assms(1) by (rule loopState_run)
  have "Contains (''GitHub API returned 403 (rate limited?). Try setting '' @ ''GITHUB_TOKEN'' @ [])
          ''GITHUB_TOKEN''"
    by (rule Contains_append)
  then have tok: "Contains (Error rateLimited) ''GITHUB_TOKEN''"
    by (simp add: rateLimited_def)
  have diff: "\<forall>other. apiError other \<noteq> rateLimited"
    by (simp add: apiError_def rateLimited_def)
  have len: "length (TrimSpace (take 4096 (RespBody resp))) \<le> 4096"
    using length_TrimSpace [of "take 4096 (RespBody resp)"] by simp
  have a: "StatusCode resp = 403 \<Longrightarrow>
      FetchAllReleases long Do decode = Some ([], Some rateLimited)"
    using fetchPages_403 [of Do page resp decode all reqs] assms(2) run
    by (simp add: FetchAllReleases_def)
  have b: "StatusCode resp \<noteq> 403 \<Longrightarrow> StatusCode resp < 200 \<or> 300 \<le> StatusCode resp \<Longrightarrow>
      FetchAllReleases long Do decode = Some ([], Some (apiError resp))"
    using fetchPages_status [of Do page resp decode all reqs] assms(2) run
    by (simp add: FetchAllReleases_def)
  from a b tok diff len show ?thesis
    by (simp add: apiError_def)
qed

theorem page_status_errors_witness:
  "FetchAllReleases stableLong (serveThen fullPage forbidden) (decodeKeys geTable) =
     Some ([], Some (Errorf ''GitHub API returned 403 (rate limited?). Try setting GITHUB_TOKEN'')) \<and>
   FetchAllReleases stableLong (serveThen fullPage badGateway) (decodeKeys geTable) =
     Some ([], Some (Errorf ''GitHub API error: 502 Bad Gateway: upstream down''))"
proof -
  have f: "serveThen fullPage forbidden perPage 2 = Inr forbidden"
    and g: "serveThen fullPage badGateway perPage 2 = Inr badGateway"
    by (simp_all add: serveThen_def)
  have sf: "StatusCode forbidden = 403"
    by (simp add: forbidden_def)
  have sg: "StatusCode badGateway \<noteq> 403 \<and> (StatusCode badGateway < 200 \<or> 300 \<le> StatusCode badGateway)"
    by (simp add: badGateway_def)
  have "TrimSpace (take 4096 (RespBody badGateway)) = ''upstream down''"
    by code_simp
  then have e: "apiError badGateway = Errorf ''GitHub API error: 502 Bad Gateway: upstream down''"
    by (simp add: apiError_def) (simp add: badGateway_def)
  have "FetchAllReleases stableLong (serveThen fullPage forbidden) (decodeKeys geTable) =
      Some ([], Some rateLimited)"
    using page_status_errors [OF loopState_second f, of stableLong] sf by blast
  moreover have "FetchAllReleases stableLong (serveThen fullPage badGateway) (decodeKeys geTable) =
      Some ([], Some (apiError badGateway))"
    using page_status_errors [OF loopState_second g, of stableLong] sg by blast
  ultimately show ?thesis
    unfolding e by (simp add: rateLimited_def)
qed

text \<open>
  Claim C3, as amended.  Against an API that serves \<open>items\<close> in pages of
  \<open>perPage = 100\<close>, the loop requests the pages 1, 2, ... up to
  \<open>length items div 100 + 1\<close>, each once and in this order, and ends with exactly
  \<open>items\<close> accumulated; \<^verbatim>\<open>FetchAllReleases\<close> then returns the filtered \<open>items\<close>.
  The number of requests is the rounded-up quotient when \<open>length items\<close> is not a
  multiple of 100, and one more than it otherwise.
\<close>

theorem paged_fetch_requests:
  assumes "servesPaged Do decode items"
  shows "fetchPages Do decode 1 [] [] =
           Some ([1 ..< length items div perPage + 2], items, None) \<and>
         length [1 ..< length items div perPage + 2] = length items div perPage + 1 \<and>
         length [1 ..< length items div perPage + 2] =
           (if perPage dvd length items then ceilDiv (length items) perPage + 1
            else ceilDiv (length items) perPage) \<and>
         perPage = 100 \<and>
         FetchAllReleases long Do decode = Some (filter (catalogEligible long) items, None)"
proof -
  have run: "fetchPages Do decode 1 [] [] =
      Some ([1 ..< length items div perPage + 2], items, None)"
    using assms by (rule fetch_paged_start)
  have "0 < perPage" by (simp add: perPage_def)
  then have "length items div perPage + 1 =
      (if perPage dvd length items then ceilDiv (length items) perPage + 1
       else ceilDiv (length items) perPage)"
    by (simp add: ceilDiv_eq)
  moreover have "FetchAllReleases long Do decode = Some (filter (catalogEligible long) items, None)"
    unfolding FetchAllReleases_def run by (simp add: filterLoop_filter)
  ultimately show ?thesis
    using run by (simp add: perPage_def)
qed

theorem paged_fetch_requests_witness:
  "fetchPages (serve ''abcde'') (decodeKeys geTable) 1 [] [] =
     Some ([1], map geTable ''abcde'', None) \<and>
   ceilDiv (length (map geTable ''abcde'')) perPage = 1"
proof -
  note t = paged_fetch_requests [OF servesPaged_serve, of "''abcde''" geTable stableLong]
  have len: "length (map geTable ''abcde'') = 5"
    by simp
  have d: "length (map geTable ''abcde'') div perPage + 2 = 2"
    unfolding len perPage_def by simp
  have nd: "\<not> perPage dvd length (map geTable ''abcde'')"
    unfolding len perPage_def by simp
  have u: "[1 ..< 2] = [1 :: nat]"
    by (simp add: upt_rec)
  from t have "fetchPages (serve ''abcde'') (decodeKeys geTable) 1 [] [] =
      Some ([1 ..< length (map geTable ''abcde'') div perPage + 2], map geTable ''abcde'', None)"
    by (rule conjunct1)
  then have a: "fetchPages (serve ''abcde'') (decodeKeys geTable) 1 [] [] =
      Some ([1], map geTable ''abcde'', None)"
    unfolding d u .
  from t have "length [1 ..< length (map geTable ''abcde'') div perPage + 2] =
      (if perPage dvd length (map geTable ''abcde'')
       then ceilDiv (length (map geTable ''abcde'')) perPage + 1
       else ceilDiv (length (map geTable ''abcde'')) perPage)"
    by blast
  then have "length [1 :: nat] = ceilDiv (length (map geTable ''abcde'')) perPage"
    unfolding d u using nd by (simp only: if_False)
  then have b: "ceilDiv (length (map geTable ''abcde'')) perPage = 1"
    by (simp only: list.size length_Cons One_nat_def)
  from a b show ?thesis ..
qed

theorem paged_fetch_requests_counterexample:
  "fetchPages (serve fullPage) (decodeKeys geTable) 1 [] [] =
     Some ([1, 2], map geTable fullPage, None) \<and>
   length (map geTable fullPage) = 100 \<and>
   length [1 :: nat, 2] \<noteq> ceilDiv (length (map geTable fullPage)) 100"
proof -
  have "[1 ..< length (map geTable fullPage) div perPage + 2] = [1, 2]"
    by (simp add: perPage_def fullPage_def upt_rec)
  with fetch_paged_start [OF servesPaged_serve, of fullPage geTable]
  have "fetchPages (serve fullPage) (decodeKeys geTable) 1 [] [] =
      Some ([1, 2], map geTable fullPage, None)"
    by simp
  moreover have "ceilDiv (length (map geTable fullPage)) 100 = 1"
    by (simp add: ceilDiv_eq fullPage_def)
  ultimately show ?thesis
    by (simp add: fullPage_def)
qed

section \<open>Entries that are skipped\<close>

lemma extractEntry_rejected:
  "rejected (Clean (HdrName hdr)) \<Longrightarrow> extractEntry os destRoot hdr content st = (None, st)"
  by (simp add: extractEntry_def)

lemma extractLoop_skipped:
  "extractLoop os destRoot items ending st =
     extractLoop os destRoot (filter (\<lambda>e. \<not> skipped e) items) ending st"
proof (induction items arbitrary: st)
  case Nil
  show ?case by simp
next
  case (Cons e items)
  obtain h content where e: "e = (h, content)" by (cases e)
  show ?case
  proof (cases h)
    case None
    with e Cons.IH show ?thesis by (simp add: skipped_def)
  next
    case (Some hdr)
    show ?thesis
    proof (cases "rejected (Clean (HdrName hdr))")
      case True
      with e Some Cons.IH show ?thesis
        by (simp add: skipped_def extractEntry_rejected)
    next
      case False
      with e Some Cons.IH show ?thesis
        by (simp add: skipped_def split: prod.splits option.splits)
    qed
  qed
qed

lemma DownloadAndExtract_skipped:
  "DownloadAndExtract os rnd got untar reads sizeHint destRoot st =
     DownloadAndExtract os rnd got (dropSkipped untar) reads sizeHint destRoot st"
proof (cases got)
  case (Inl err)
  then show ?thesis by (simp add: DownloadAndExtract_def)
next
  case (Inr resp)
  show ?thesis
  proof (cases "untar (RespBody resp)")
    case (Inl err)
    with Inr show ?thesis
      by (simp add: DownloadAndExtract_def dropSkipped_def)
  next
    case r: (Inr archive)
    have "extractLoop os destRoot (Entries archive) (Ending archive) (st\<lparr>createdTopFolder := []\<rparr>) =
          extractLoop os destRoot (filter (\<lambda>e. \<not> skipped e) (Entries archive)) (Ending archive)
            (st\<lparr>createdTopFolder := []\<rparr>)"
      by (rule extractLoop_skipped)
    with Inr r show ?thesis
      by (simp add: DownloadAndExtract_def dropSkipped_def Let_def)
  qed
qed

lemma Clean_passwd: "Clean ''../../etc/passwd'' = ''../../etc/passwd''"
  by code_simp

lemma Clean_dotdot_data: "Clean ''..data'' = ''..data''"
  by code_simp

text \<open>
  Claim C1.  An entry whose cleaned name is \<^verbatim>\<open>.\<close>, \<^verbatim>\<open>/\<close> or begins with
  \<^verbatim>\<open>..\<close> leaves the file system, the top folder and the log as they were, whatever
  the operating system would do, and the loop goes on; so the loop, and with it the whole
  function, returns for an archive what it returns for the archive without these
  entries.  \<^verbatim>\<open>../../etc/passwd\<close> is such a name.
\<close>

theorem rejected_entry_skipped:
  "(rejected (Clean (HdrName hdr)) \<longrightarrow>
      extractEntry os destRoot hdr content st = (None, st) \<and>
      extractLoop os destRoot ((Some hdr, content) # rest) ending st =
        extractLoop os destRoot rest ending st) \<and>
   extractLoop os destRoot items ending st =
     extractLoop os destRoot (filter (\<lambda>e. \<not> skipped e) items) ending st \<and>
   DownloadAndExtract os rnd got untar reads sizeHint destRoot st =
     DownloadAndExtract os rnd got (dropSkipped untar) reads sizeHint destRoot st \<and>
   rejected (Clean ''../../etc/passwd'')"
proof -
  have "rejected (Clean ''../../etc/passwd'')"
    unfolding Clean_passwd by (simp add: rejected_def HasPrefix_def)
  moreover have "rejected (Clean (HdrName hdr)) \<Longrightarrow>
      extractLoop os destRoot ((Some hdr, content) # rest) ending st =
        extractLoop os destRoot rest ending st"
    by (simp add: extractEntry_rejected)
  ultimately show ?thesis
    using extractLoop_skipped [of os destRoot items ending st]
      DownloadAndExtract_skipped [of os rnd got untar reads sizeHint destRoot st]
    by (simp add: extractEntry_rejected)
qed

theorem rejected_entry_skipped_witness:
  "extractEntry (recorder False) ''/dest''
     \<lparr>HdrName = ''../../etc/passwd'', Typeflag = TypeReg, Mode = 493, Linkname = []\<rparr>
     ''root::0:0'' st0 = (None, st0) \<and>
   DownloadAndExtract (recorder False) exact (Inr (ok [])) (tarball geArchive) [] 0 ''/dest'' st0 =
     (None,
      \<lparr>disk = [CallMkdirAll ''/dest/GE-Proton9-5'' 493,
               CallMkdirAll ''/dest/GE-Proton9-5/bin'' 493,
               CallOpenFile ''/dest/GE-Proton9-5/bin/run'' 493,
               CallCopy ''/dest/GE-Proton9-5/bin/run'' ''#!/bin/sh''],
       createdTopFolder = ''GE-Proton9-5'',
       logged = [''Extracted: /dest/GE-Proton9-5'']\<rparr>,
      [])"
proof -
  have r: "rejected (Clean (HdrName
      \<lparr>HdrName = ''../../etc/passwd'', Typeflag = TypeReg, Mode = 493, Linkname = []\<rparr>))"
    by (simp add: Clean_passwd rejected_def HasPrefix_def)
  have a: "extractEntry (recorder False) ''/dest''
     \<lparr>HdrName = ''../../etc/passwd'', Typeflag = TypeReg, Mode = 493, Linkname = []\<rparr>
     ''root::0:0'' st0 = (None, st0)"
    using rejected_entry_skipped
      [of "\<lparr>HdrName = ''../../etc/passwd'', Typeflag = TypeReg, Mode = 493, Linkname = []\<rparr>"
          "recorder False" "''/dest''" "''root::0:0''" st0] r
    by blast
  have b: "DownloadAndExtract (recorder False) exact (Inr (ok [])) (tarball geArchive) [] 0 ''/dest'' st0 =
     (None,
      \<lparr>disk = [CallMkdirAll ''/dest/GE-Proton9-5'' 493,
               CallMkdirAll ''/dest/GE-Proton9-5/bin'' 493,
               CallOpenFile ''/dest/GE-Proton9-5/bin/run'' 493,
               CallCopy ''/dest/GE-Proton9-5/bin/run'' ''#!/bin/sh''],
       createdTopFolder = ''GE-Proton9-5'',
       logged = [''Extracted: /dest/GE-Proton9-5'']\<rparr>,
      [])"
    by code_simp
  from a b show ?thesis ..
qed

text \<open>
  Claim C10.  The test is on the first two bytes of the cleaned name: every entry whose
  cleaned name begins with \<^verbatim>\<open>..\<close> is skipped.  \<^verbatim>\<open>..data\<close> is its own cleaned
  name, it begins with \<^verbatim>\<open>..\<close>, and joined to \<^verbatim>\<open>/dest\<close> it names a path below
  \<^verbatim>\<open>/dest\<close>.
\<close>

theorem dotdot_prefix_skipped:
  "(HasPrefix (Clean (HdrName hdr)) ''..'' \<longrightarrow>
      extractEntry os destRoot hdr content st = (None, st)) \<and>
   Clean ''..data'' = ''..data'' \<and>
   HasPrefix (Clean ''..data'') ''..'' \<and>
   Join [''/dest'', ''..data''] = ''/dest/..data''"
proof -
  have "HasPrefix (Clean (HdrName hdr)) ''..'' \<Longrightarrow>
      extractEntry os destRoot hdr content st = (None, st)"
    by (rule extractEntry_rejected) (simp add: rejected_def)
  moreover have "HasPrefix (Clean ''..data'') ''..''"
    unfolding Clean_dotdot_data by (simp add: HasPrefix_def)
  moreover have "Join [''/dest'', ''..data''] = ''/dest/..data''"
    by code_simp
  ultimately show ?thesis
    using Clean_dotdot_data by blast
qed

theorem dotdot_prefix_skipped_witness:
  "extractEntry (recorder False) ''/dest''
     \<lparr>HdrName = ''..data'', Typeflag = TypeDir, Mode = 493, Linkname = []\<rparr> [] st0 = (None, st0) \<and>
   DownloadAndExtract (recorder False) exact (Inr (ok []))
     (tarball [entry ''..data'' TypeDir [] [], entry ''..data/notes'' TypeReg [] ''n''])
     [] 0 ''/dest'' st0 = (Some noTopFolder, st0, [])"
proof -
  have p: "HasPrefix (Clean (HdrName
      \<lparr>HdrName = ''..data'', Typeflag = TypeDir, Mode = 493, Linkname = []\<rparr>)) ''..''"
    by (simp add: Clean_dotdot_data HasPrefix_def)
  have a: "extractEntry (recorder False) ''/dest''
     \<lparr>HdrName = ''..data'', Typeflag = TypeDir, Mode = 493, Linkname = []\<rparr> [] st0 = (None, st0)"
    using dotdot_prefix_skipped
      [of "\<lparr>HdrName = ''..data'', Typeflag = TypeDir, Mode = 493, Linkname = []\<rparr>"
          "recorder False" "''/dest''" "[]" st0] p
    by blast
  have b: "DownloadAndExtract (recorder False) exact (Inr (ok []))
     (tarball [entry ''..data'' TypeDir [] [], entry ''..data/notes'' TypeReg [] ''n''])
     [] 0 ''/dest'' st0 = (Some noTopFolder, st0, [])"
    by code_simp
  from a b show ?thesis ..
qed

section \<open>The top folder\<close>

lemma Split_nonempty: "Split s sep \<noteq> []"
  by (induction s) (auto split: list.splits)

lemma Split_first: "Split s sep ! 0 = takeWhile (\<lambda>c. c \<noteq> sep) s"
proof (induction s)
  case Nil
  show ?case by simp
next
  case (Cons c s)
  then show ?case
    using Split_nonempty [of s sep] by (cases "Split s sep") auto
qed

lemma Split_first_empty: "Split s CHR ''/'' ! 0 = [] \<longleftrightarrow> s = [] \<or> HasPrefix s ''/''"
  unfolding Split_first by (cases s) (auto simp: HasPrefix_def)

lemma Clean_nonempty: "Clean path \<noteq> []"
  by (auto simp: Clean_def Let_def)

lemma withTop_fields:
  "disk (withTop hdr st) = disk st" "logged (withTop hdr st) = logged st"
  "createdTopFolder (withTop hdr st) =
     (if createdTopFolder st = [] then Split (Clean (HdrName hdr)) CHR ''/'' ! 0
      else createdTopFolder st)"
  by (simp_all add: withTop_def)

lemma extractEntry_survivor:
  assumes "\<not> rejected (Clean (HdrName hdr))"
  shows "extractEntry os destRoot hdr content st =
     (let st1 = withTop hdr st; targetPath = targetOf destRoot hdr in
      if Typeflag hdr = TypeDir then
        (case MkdirAll os targetPath (FileMode (Mode hdr)) (disk st1) of
           (Some err, d) \<Rightarrow> (Some err, st1\<lparr>disk := d\<rparr>)
         | (None, d) \<Rightarrow> (None, st1\<lparr>disk := d\<rparr>))
      else if Typeflag hdr = TypeReg then
        (case MkdirAll os (Dir targetPath) 493 (disk st1) of
           (Some err, d) \<Rightarrow> (Some err, st1\<lparr>disk := d\<rparr>)
         | (None, d) \<Rightarrow>
             (case OpenFile os targetPath (FileMode (Mode hdr)) d of
                (Some err, d) \<Rightarrow> (Some err, st1\<lparr>disk := d\<rparr>)
              | (None, d) \<Rightarrow>
                  (case Copy os targetPath content d of
                     (Some err, d) \<Rightarrow> (Some err, st1\<lparr>disk := d\<rparr>)
                   | (None, d) \<Rightarrow> (None, st1\<lparr>disk := d\<rparr>))))
      else if Typeflag hdr = TypeSymlink then
        (case MkdirAll os (Dir targetPath) 493 (disk st1) of
           (Some err, d) \<Rightarrow> (Some err, st1\<lparr>disk := d\<rparr>)
         | (None, d) \<Rightarrow>
             (case Symlink os (linkOf hdr) targetPath d of
                (Some err, d) \<Rightarrow>
                  (None, st1\<lparr>disk := d,
                             logged := logged st1 @ [symlinkWarning targetPath (linkOf hdr) err]\<rparr>)
              | (None, d) \<Rightarrow> (None, st1\<lparr>disk := d\<rparr>)))
      else (None, st1))"
proof -
  have "length (Split (Clean (HdrName hdr)) CHR ''/'') > 0"
    using Split_nonempty [of "Clean (HdrName hdr)" "CHR ''/''"] by simp
  with assms show ?thesis
    by (simp add: extractEntry_def Let_def withTop_def targetOf_def linkOf_def
        del: Join.simps split: prod.splits option.splits)
qed

lemma extractEntry_top:
  "createdTopFolder (snd (extractEntry os destRoot hdr content st)) =
     (if rejected (Clean (HdrName hdr)) then createdTopFolder st
      else createdTopFolder (withTop hdr st))"
proof (cases "rejected (Clean (HdrName hdr))")
  case True
  then show ?thesis by (simp add: extractEntry_rejected)
next
  case False
  then show ?thesis
    by (simp add: extractEntry_survivor Let_def split: prod.splits option.splits)
qed

lemma extractLoop_top:
  "fst (extractLoop os destRoot items ending st) = None \<Longrightarrow>
   createdTopFolder (snd (extractLoop os destRoot items ending st)) =
     (if createdTopFolder st = [] then topFolderOf items else createdTopFolder st)"
proof (induction items arbitrary: st)
  case Nil
  then show ?case by (simp split: option.splits)
next
  case (Cons e items)
  obtain h content where e: "e = (h, content)" by (cases e)
  show ?case
  proof (cases h)
    case None
    with e Cons show ?thesis by simp
  next
    case (Some hdr)
    obtain r st' where step: "extractEntry os destRoot hdr content st = (r, st')"
      by (cases "extractEntry os destRoot hdr content st")
    with Cons.prems e Some have r: "r = None"
      by (cases r) simp_all
    with Cons.prems e Some step
    have "fst (extractLoop os destRoot items ending st') = None" by simp
    then have "createdTopFolder (snd (extractLoop os destRoot items ending st')) =
        (if createdTopFolder st' = [] then topFolderOf items else createdTopFolder st')"
      by (rule Cons.IH)
    moreover have "createdTopFolder st' =
        (if rejected (Clean (HdrName hdr)) then createdTopFolder st
         else createdTopFolder (withTop hdr st))"
      using extractEntry_top [of os destRoot hdr content st] step by simp
    ultimately show ?thesis
      using e Some step r by (simp add: withTop_fields)
  qed
qed

lemma topFolderOf_empty:
  "topFolderOf items = [] \<longleftrightarrow>
     (\<forall>e \<in> set items. \<forall>hdr. fst e = Some hdr \<longrightarrow>
        rejected (Clean (HdrName hdr)) \<or> HasPrefix (Clean (HdrName hdr)) ''/'')"
proof (induction items rule: topFolderOf.induct)
  case 1
  show ?case by simp
next
  case (2 content rest)
  then show ?case by simp
next
  case (3 hdr content rest)
  then show ?case
    by (auto simp: Split_first_empty Clean_nonempty)
qed

lemma DownloadAndExtract_finished:
  assumes "200 \<le> StatusCode resp" "StatusCode resp < 300"
    and "untar (RespBody resp) = Inr archive"
    and "fst (extractLoop os destRoot (Entries archive) (Ending archive)
           (st\<lparr>createdTopFolder := []\<rparr>)) = None"
  shows "fst (DownloadAndExtract os rnd (Inr resp) untar reads sizeHint destRoot st) =
           (if topFolderOf (Entries archive) = [] then Some noTopFolder else None)"
    and "createdTopFolder (fst (snd (DownloadAndExtract os rnd (Inr resp) untar reads sizeHint destRoot st))) =
           topFolderOf (Entries archive)"
    and "topFolderOf (Entries archive) \<noteq> [] \<Longrightarrow>
         logged (fst (snd (DownloadAndExtract os rnd (Inr resp) untar reads sizeHint destRoot st))) =
           logged (snd (extractLoop os destRoot (Entries archive) (Ending archive)
                     (st\<lparr>createdTopFolder := []\<rparr>))) @
           [''Extracted: '' @ Join [destRoot, topFolderOf (Entries archive)]]"
proof -
  obtain st' where run: "extractLoop os destRoot (Entries archive) (Ending archive)
      (st\<lparr>createdTopFolder := []\<rparr>) = (None, st')"
    using assms(4)
    by (cases "extractLoop os destRoot (Entries archive) (Ending archive) (st\<lparr>createdTopFolder := []\<rparr>)")
      simp
  have top: "createdTopFolder st' = topFolderOf (Entries archive)"
    using extractLoop_top [OF assms(4)] run by simp
  show "fst (DownloadAndExtract os rnd (Inr resp) untar reads sizeHint destRoot st) =
           (if topFolderOf (Entries archive) = [] then Some noTopFolder else None)"
    using assms(1,2,3) run top by (simp add: DownloadAndExtract_def Let_def)
  show "createdTopFolder (fst (snd (DownloadAndExtract os rnd (Inr resp) untar reads sizeHint destRoot st))) =
           topFolderOf (Entries archive)"
    using assms(1,2,3) run top by (simp add: DownloadAndExtract_def Let_def)
  show "topFolderOf (Entries archive) \<noteq> [] \<Longrightarrow>
         logged (fst (snd (DownloadAndExtract os rnd (Inr resp) untar reads sizeHint destRoot st))) =
           logged (snd (extractLoop os destRoot (Entries archive) (Ending archive)
                     (st\<lparr>createdTopFolder := []\<rparr>))) @
           [''Extracted: '' @ Join [destRoot, topFolderOf (Entries archive)]]"
    using assms(1,2,3) run top by (simp add: DownloadAndExtract_def Let_def)
qed

text \<open>
  Claim C4, as amended.  When the download succeeds and no error of the tar reader or
  of the file system ends the loop, \<^verbatim>\<open>DownloadAndExtract\<close> returns the error
  \<^verbatim>\<open>no top folder\<close> exactly when every entry that survives the sanitization has a
  cleaned name that begins with a slash, which is so in particular when none survives and
  when the archive has no entry.  Otherwise it returns no error, and the top folder, which
  it logs joined to the destination, is the first path segment of the first surviving
  entry whose cleaned name does not begin with a slash.
\<close>

theorem top_folder_or_error:
  assumes "200 \<le> StatusCode resp" "StatusCode resp < 300"
    and "untar (RespBody resp) = Inr archive"
    and "fst (extractLoop os destRoot (Entries archive) (Ending archive)
           (st\<lparr>createdTopFolder := []\<rparr>)) = None"
  shows "fst (DownloadAndExtract os rnd (Inr resp) untar reads sizeHint destRoot st) =
           (if topFolderOf (Entries archive) = [] then Some noTopFolder else None) \<and>
         createdTopFolder (fst (snd (DownloadAndExtract os rnd (Inr resp) untar reads sizeHint destRoot st))) =
           topFolderOf (Entries archive) \<and>
         (topFolderOf (Entries archive) \<noteq> [] \<longrightarrow>
            last (logged (fst (snd (DownloadAndExtract os rnd (Inr resp) untar reads sizeHint destRoot st)))) =
              ''Extracted: '' @ Join [destRoot, topFolderOf (Entries archive)]) \<and>
         (topFolderOf (Entries archive) = [] \<longleftrightarrow>
            (\<forall>e \<in> set (Entries archive). \<forall>hdr. fst e = Some hdr \<longrightarrow>
               rejected (Clean (HdrName hdr)) \<or> HasPrefix (Clean (HdrName hdr)) ''/'')) \<and>
         (Entries archive = [] \<longrightarrow> topFolderOf (Entries archive) = [])"
proof -
  note f = DownloadAndExtract_finished
    [where resp = resp and untar = untar and archive = archive and os = os and destRoot = destRoot
       and st = st and rnd = rnd and reads = reads and sizeHint = sizeHint, OF assms]
  have "topFolderOf (Entries archive) \<noteq> [] \<Longrightarrow>
      last (logged (fst (snd (DownloadAndExtract os rnd (Inr resp) untar reads sizeHint destRoot st)))) =
        ''Extracted: '' @ Join [destRoot, topFolderOf (Entries archive)]"
    using f(3) by simp
  moreover have "Entries archive = [] \<Longrightarrow> topFolderOf (Entries archive) = []"
    by simp
  ultimately show ?thesis
    using f(1,2) topFolderOf_empty [of "Entries archive"] by blast
qed

theorem top_folder_or_error_witness:
  "fst (DownloadAndExtract (recorder False) exact (Inr (ok []))
         (tarball [entry ''GE-Proton9-5/'' TypeDir [] [], entry ''GE-Proton9-5/bin/run'' TypeReg [] ''#!''])
         [] 0 ''/dest'' st0) = None \<and>
   createdTopFolder (fst (snd (DownloadAndExtract (recorder False) exact (Inr (ok []))
         (tarball [entry ''GE-Proton9-5/'' TypeDir [] [], entry ''GE-Proton9-5/bin/run'' TypeReg [] ''#!''])
         [] 0 ''/dest'' st0))) = ''GE-Proton9-5'' \<and>
   fst (DownloadAndExtract (recorder False) exact (Inr (ok [])) (tarball []) [] 0 ''/dest'' st0) =
     Some noTopFolder"
proof -
  let ?es = "[entry ''GE-Proton9-5/'' TypeDir [] [], entry ''GE-Proton9-5/bin/run'' TypeReg [] ''#!'']"
  let ?a = "\<lparr>Entries = ?es, Ending = None\<rparr>"
  let ?z = "\<lparr>Entries = [], Ending = None\<rparr>"
  have s: "200 \<le> StatusCode (ok [])" "StatusCode (ok []) < 300"
    by (simp_all add: ok_def)
  have u: "tarball ?es (RespBody (ok [])) = Inr ?a" "tarball [] (RespBody (ok [])) = Inr ?z"
    by (simp_all add: tarball_def)
  have l: "fst (extractLoop (recorder False) ''/dest'' (Entries ?a) (Ending ?a)
              (st0\<lparr>createdTopFolder := []\<rparr>)) = None"
    by code_simp
  have lz: "fst (extractLoop (recorder False) ''/dest'' (Entries ?z) (Ending ?z)
              (st0\<lparr>createdTopFolder := []\<rparr>)) = None"
    by simp
  have t: "topFolderOf (Entries ?a) = ''GE-Proton9-5''"
    by code_simp
  have tz: "topFolderOf (Entries ?z) = []"
    by simp
  note a = top_folder_or_error
    [where resp = "ok []" and untar = "tarball ?es" and archive = ?a and os = "recorder False"
       and destRoot = "''/dest''" and st = st0 and rnd = exact and reads = "[]" and sizeHint = 0,
     OF s u(1) l]
  note z = top_folder_or_error
    [where resp = "ok []" and untar = "tarball []" and archive = ?z and os = "recorder False"
       and destRoot = "''/dest''" and st = st0 and rnd = exact and reads = "[]" and sizeHint = 0,
     OF s u(2) lz]
  from a have a1: "fst (DownloadAndExtract (recorder False) exact (Inr (ok [])) (tarball ?es) [] 0 ''/dest'' st0) =
      (if topFolderOf (Entries ?a) = [] then Some noTopFolder else None)"
    by (rule conjunct1)
  from a have a2: "createdTopFolder (fst (snd (DownloadAndExtract (recorder False) exact (Inr (ok []))
      (tarball ?es) [] 0 ''/dest'' st0))) = topFolderOf (Entries ?a)"
    by blast
  from z have z1: "fst (DownloadAndExtract (recorder False) exact (Inr (ok [])) (tarball []) [] 0 ''/dest'' st0) =
      (if topFolderOf (Entries ?z) = [] then Some noTopFolder else None)"
    by (rule conjunct1)
  from a1 a2 z1 show ?thesis
    unfolding t tz by simp
qed

theorem top_folder_or_error_counterexample:
  "\<not> skipped (entry ''/opt'' TypeDir [] []) \<and>
   DownloadAndExtract (recorder False) exact (Inr (ok [])) (tarball [entry ''/opt'' TypeDir [] []])
     [] 0 ''/dest'' st0 =
   (Some noTopFolder, \<lparr>disk = [CallMkdirAll ''/dest/opt'' 493], createdTopFolder = [], logged = []\<rparr>, [])"
proof -
  have "\<not> skipped (entry ''/opt'' TypeDir [] [])"
    by code_simp
  moreover have "DownloadAndExtract (recorder False) exact (Inr (ok []))
      (tarball [entry ''/opt'' TypeDir [] []]) [] 0 ''/dest'' st0 =
    (Some noTopFolder, \<lparr>disk = [CallMkdirAll ''/dest/opt'' 493], createdTopFolder = [], logged = []\<rparr>, [])"
    by code_simp
  ultimately show ?thesis ..
qed

section \<open>Symbolic links that cannot be created\<close>

lemma flags_distinct: "TypeSymlink \<noteq> TypeDir" "TypeSymlink \<noteq> TypeReg"
  by (simp_all add: TypeSymlink_def TypeDir_def TypeReg_def)

lemma extractEntry_symlink_fails:
  assumes "\<not> rejected (Clean (HdrName hdr))" and "Typeflag hdr = TypeSymlink"
    and "MkdirAll os (Dir (targetOf destRoot hdr)) 493 (disk st) = (None, d1)"
    and "Symlink os (linkOf hdr) (targetOf destRoot hdr) d1 = (Some err, d2)"
  shows "extractEntry os destRoot hdr content st =
     (None, (withTop hdr st)\<lparr>disk := d2,
        logged := logged st @ [symlinkWarning (targetOf destRoot hdr) (linkOf hdr) err]\<rparr>)"
  using assms by (simp add: extractEntry_survivor Let_def flags_distinct withTop_fields)

lemma extractEntry_symlink_goes_on:
  assumes "Typeflag hdr = TypeSymlink" and "\<forall>path perm d. fst (MkdirAll os path perm d) = None"
  shows "fst (extractEntry os destRoot hdr content st) = None"
proof (cases "rejected (Clean (HdrName hdr))")
  case True
  then show ?thesis by (simp add: extractEntry_rejected)
next
  case False
  obtain r d where m: "MkdirAll os (Dir (targetOf destRoot hdr)) 493 (disk st) = (r, d)"
    by (cases "MkdirAll os (Dir (targetOf destRoot hdr)) 493 (disk st)")
  with assms(2) have "r = None"
    by (metis fst_conv)
  with False assms(1) m show ?thesis
    by (simp add: extractEntry_survivor Let_def flags_distinct withTop_fields
        split: prod.splits option.splits)
qed

lemma extractEntry_symlink_logs:
  assumes "\<not> rejected (Clean (HdrName hdr))" and "Typeflag hdr = TypeSymlink"
    and "\<forall>path perm d. fst (MkdirAll os path perm d) = None"
    and "\<forall>link path d. fst (Symlink os link path d) \<noteq> None"
  shows "length (logged (snd (extractEntry os destRoot hdr content st))) = length (logged st) + 1"
proof -
  obtain r d where m: "MkdirAll os (Dir (targetOf destRoot hdr)) 493 (disk st) = (r, d)"
    by (cases "MkdirAll os (Dir (targetOf destRoot hdr)) 493 (disk st)")
  with assms(3) have r: "r = None"
    by (metis fst_conv)
  obtain r' d' where s: "Symlink os (linkOf hdr) (targetOf destRoot hdr) d = (r', d')"
    by (cases "Symlink os (linkOf hdr) (targetOf destRoot hdr) d")
  with assms(4) obtain err where "r' = Some err"
    by (metis fst_conv not_Some_eq)
  with assms(1,2) m r s show ?thesis
    by (simp add: extractEntry_symlink_fails withTop_fields)
qed

lemma symlinks_all_fail:
  assumes "\<forall>path perm d. fst (MkdirAll os path perm d) = None"
    and "\<forall>link path d. fst (Symlink os link path d) \<noteq> None"
  shows "\<forall>e \<in> set items. \<not> skipped e \<and> (\<exists>hdr content. e = (Some hdr, content) \<and> Typeflag hdr = TypeSymlink) \<Longrightarrow>
     fst (extractLoop os destRoot items None st) = None \<and>
     length (logged (snd (extractLoop os destRoot items None st))) = length (logged st) + length items"
proof (induction items arbitrary: st)
  case Nil
  show ?case by simp
next
  case (Cons e items)
  from Cons.prems obtain hdr content where e: "e = (Some hdr, content)"
    and sym: "Typeflag hdr = TypeSymlink" and ns: "\<not> skipped e"
    by auto
  from ns e have nr: "\<not> rejected (Clean (HdrName hdr))"
    by (simp add: skipped_def)
  obtain r st' where step: "extractEntry os destRoot hdr content st = (r, st')"
    by (cases "extractEntry os destRoot hdr content st")
  have r: "r = None"
    using extractEntry_symlink_goes_on [OF sym assms(1), of destRoot content st] step by simp
  have l: "length (logged st') = length (logged st) + 1"
    using extractEntry_symlink_logs [OF nr sym assms, of destRoot content st] step by simp
  have "fst (extractLoop os destRoot items None st') = None \<and>
      length (logged (snd (extractLoop os destRoot items None st'))) = length (logged st') + length items"
    using Cons.prems by (intro Cons.IH) simp
  with e step r l show ?case by simp
qed

text \<open>
  Claim C8.  For an entry that is a symbolic link and survives the sanitization, once the
  directory of its target is there, a failure of \<^verbatim>\<open>os.Symlink\<close> adds a warning to
  the log and lets the loop go on with the following entries.  On a system that creates
  every directory and no symbolic link, an archive of any number of surviving symbolic
  links is read to its end without error, with one warning for each of them, and the
  function returns no error when one of them gives a top folder.
\<close>

theorem symlink_failure_not_fatal:
  "(\<not> rejected (Clean (HdrName hdr)) \<and> Typeflag hdr = TypeSymlink \<and>
    MkdirAll os (Dir (targetOf destRoot hdr)) 493 (disk st) = (None, d1) \<and>
    Symlink os (linkOf hdr) (targetOf destRoot hdr) d1 = (Some err, d2) \<longrightarrow>
      extractEntry os destRoot hdr content st =
        (None, (withTop hdr st)\<lparr>disk := d2,
           logged := logged st @ [symlinkWarning (targetOf destRoot hdr) (linkOf hdr) err]\<rparr>) \<and>
      extractLoop os destRoot ((Some hdr, content) # rest) ending st =
        extractLoop os destRoot rest ending
          ((withTop hdr st)\<lparr>disk := d2,
             logged := logged st @ [symlinkWarning (targetOf destRoot hdr) (linkOf hdr) err]\<rparr>)) \<and>
   ((\<forall>path perm d. fst (MkdirAll os path perm d) = None) \<and>
    (\<forall>link path d. fst (Symlink os link path d) \<noteq> None) \<and>
    (\<forall>e \<in> set (Entries archive).
       \<not> skipped e \<and> (\<exists>hdr content. e = (Some hdr, content) \<and> Typeflag hdr = TypeSymlink)) \<and>
    Ending archive = None \<longrightarrow>
      fst (extractLoop os destRoot (Entries archive) (Ending archive) st) = None \<and>
      length (logged (snd (extractLoop os destRoot (Entries archive) (Ending archive) st))) =
        length (logged st) + length (Entries archive) \<and>
      (200 \<le> StatusCode resp \<and> StatusCode resp < 300 \<and> untar (RespBody resp) = Inr archive \<and>
       topFolderOf (Entries archive) \<noteq> [] \<longrightarrow>
         fst (DownloadAndExtract os rnd (Inr resp) untar reads sizeHint destRoot st) = None))"
proof -
  have one: "\<not> rejected (Clean (HdrName hdr)) \<Longrightarrow> Typeflag hdr = TypeSymlink \<Longrightarrow>
      MkdirAll os (Dir (targetOf destRoot hdr)) 493 (disk st) = (None, d1) \<Longrightarrow>
      Symlink os (linkOf hdr) (targetOf destRoot hdr) d1 = (Some err, d2) \<Longrightarrow>
      extractEntry os destRoot hdr content st =
        (None, (withTop hdr st)\<lparr>disk := d2,
           logged := logged st @ [symlinkWarning (targetOf destRoot hdr) (linkOf hdr) err]\<rparr>)"
    by (rule extractEntry_symlink_fails)
  have two: "extractEntry os destRoot hdr content st = (None, st') \<Longrightarrow>
      extractLoop os destRoot ((Some hdr, content) # rest) ending st =
        extractLoop os destRoot rest ending st'" for st'
    by simp
  have many: "(\<forall>path perm d. fst (MkdirAll os path perm d) = None) \<Longrightarrow>
      (\<forall>link path d. fst (Symlink os link path d) \<noteq> None) \<Longrightarrow>
      (\<forall>e \<in> set (Entries archive).
         \<not> skipped e \<and> (\<exists>hdr content. e = (Some hdr, content) \<and> Typeflag hdr = TypeSymlink)) \<Longrightarrow>
      Ending archive = None \<Longrightarrow>
      fst (extractLoop os destRoot (Entries archive) (Ending archive) st') = None \<and>
      length (logged (snd (extractLoop os destRoot (Entries archive) (Ending archive) st'))) =
        length (logged st') + length (Entries archive)" for st'
    using symlinks_all_fail [of os "Entries archive" destRoot st'] by simp
  have whole: "fst (extractLoop os destRoot (Entries archive) (Ending archive)
        (st\<lparr>createdTopFolder := []\<rparr>)) = None \<Longrightarrow>
      200 \<le> StatusCode resp \<Longrightarrow> StatusCode resp < 300 \<Longrightarrow> untar (RespBody resp) = Inr archive \<Longrightarrow>
      topFolderOf (Entries archive) \<noteq> [] \<Longrightarrow>
      fst (DownloadAndExtract os rnd (Inr resp) untar reads sizeHint destRoot st) = None"
    using DownloadAndExtract_finished(1)
      [where resp = resp and untar = untar and archive = archive and os = os and destRoot = destRoot
         and st = st and rnd = rnd and reads = reads and sizeHint = sizeHint]
    by simp
  show ?thesis
    using one two many [of st] many [of "st\<lparr>createdTopFolder := []\<rparr>"] whole
    by (intro conjI impI) (elim conjE, simp_all)
qed

theorem symlink_failure_not_fatal_witness:
  "DownloadAndExtract (recorder True) exact (Inr (ok [])) (tarball linkArchive) [] 0 ''/dest'' st0 =
     (None,
      \<lparr>disk = [CallMkdirAll ''/dest/GE-Proton9-5'' 493,
               CallSymlink ''lib64'' ''/dest/GE-Proton9-5/lib'',
               CallMkdirAll ''/dest/GE-Proton9-5'' 493,
               CallSymlink ''files'' ''/dest/GE-Proton9-5/dist''],
       createdTopFolder = ''GE-Proton9-5'',
       logged =
         [''Symlink create failed for /dest/GE-Proton9-5/lib -> lib64: operation not permitted (continuing)'',
          ''Symlink create failed for /dest/GE-Proton9-5/dist -> files: operation not permitted (continuing)'',
          ''Extracted: /dest/GE-Proton9-5'']\<rparr>,
      []) \<and>
   fst (extractLoop (recorder True) ''/dest'' linkArchive None st0) = None \<and>
   length (logged (snd (extractLoop (recorder True) ''/dest'' linkArchive None st0))) = 2"
proof -
  let ?a = "\<lparr>Entries = linkArchive, Ending = None\<rparr>"
  have mk: "\<forall>path perm d. fst (MkdirAll (recorder True) path perm d) = None"
    and sy: "\<forall>link path d. fst (Symlink (recorder True) link path d) \<noteq> None"
    by (simp_all add: recorder_def)
  have c1: "Clean ''GE-Proton9-5/lib'' = ''GE-Proton9-5/lib''"
    and c2: "Clean ''GE-Proton9-5/dist'' = ''GE-Proton9-5/dist''"
    by code_simp+
  have es: "\<forall>e \<in> set (Entries ?a).
      \<not> skipped e \<and> (\<exists>hdr content. e = (Some hdr, content) \<and> Typeflag hdr = TypeSymlink)"
    by (simp add: linkArchive_def entry_def skipped_def c1 c2 rejected_def HasPrefix_def)
  have en: "Ending ?a = None"
    by simp
  have "fst (extractLoop (recorder True) ''/dest'' (Entries ?a) (Ending ?a) st0) = None \<and>
      length (logged (snd (extractLoop (recorder True) ''/dest'' (Entries ?a) (Ending ?a) st0))) =
        length (logged st0) + length (Entries ?a)"
    using symlink_failure_not_fatal [where os = "recorder True" and archive = ?a and st = st0
        and destRoot = "''/dest''"] mk sy es en
    by blast
  then have b: "fst (extractLoop (recorder True) ''/dest'' linkArchive None st0) = None \<and>
      length (logged (snd (extractLoop (recorder True) ''/dest'' linkArchive None st0))) = 2"
    by (simp add: st0_def linkArchive_def)
  have a: "DownloadAndExtract (recorder True) exact (Inr (ok [])) (tarball linkArchive) [] 0 ''/dest'' st0 =
     (None,
      \<lparr>disk = [CallMkdirAll ''/dest/GE-Proton9-5'' 493,
               CallSymlink ''lib64'' ''/dest/GE-Proton9-5/lib'',
               CallMkdirAll ''/dest/GE-Proton9-5'' 493,
               CallSymlink ''files'' ''/dest/GE-Proton9-5/dist''],
       createdTopFolder = ''GE-Proton9-5'',
       logged =
         [''Symlink create failed for /dest/GE-Proton9-5/lib -> lib64: operation not permitted (continuing)'',
          ''Symlink create failed for /dest/GE-Proton9-5/dist -> files: operation not permitted (continuing)'',
          ''Extracted: /dest/GE-Proton9-5'']\<rparr>,
      [])"
    by code_simp
  from a b show ?thesis ..
qed

section \<open>The progress bar\<close>

lemma wrap64_id: "0 \<le> x \<Longrightarrow> x < 2 ^ 63 \<Longrightarrow> wrap64 x = x"
  by (simp add: wrap64_def)

lemma rnd_pos:
  fixes rnd :: "real \<Rightarrow> real"
  assumes "mono rnd" and "rnd 1 = 1" and "0 < (c :: int)"
  shows "0 < rnd (of_int c)"
proof -
  from assms(3) have "(1 :: real) \<le> of_int c" by simp
  with assms(1) have "rnd 1 \<le> rnd (of_int c)" by (rule monoD)
  with assms(2) show ?thesis by simp
qed

lemma fraction_mono:
  assumes "mono rnd" and "rnd 1 = 1" and "0 < c" and "b \<le> b'"
  shows "fraction rnd b c \<le> fraction rnd b' c"
proof -
  from assms(4) have "(of_int b :: real) \<le> of_int b'" by simp
  with assms(1) have "rnd (of_int b) \<le> rnd (of_int b')" by (rule monoD)
  then have "rnd (of_int b) / rnd (of_int c) \<le> rnd (of_int b') / rnd (of_int c)"
    using rnd_pos [OF assms(1,2,3)] by (simp add: divide_right_mono)
  with assms(1) show ?thesis
    unfolding fraction_def by (rule monoD)
qed

lemma fraction_full:
  assumes "mono rnd" and "rnd 1 = 1" and "0 < c"
  shows "fraction rnd c c = 1"
  using rnd_pos [OF assms] assms(2) by (simp add: fraction_def)

lemma tee_sorted:
  assumes "mono rnd" and "rnd 1 = 1" and "0 < c"
  shows "0 \<le> b \<Longrightarrow> b + int (sum_list reads) < 2 ^ 63 \<Longrightarrow>
     sorted (tee rnd c b reads) \<and> (\<forall>x \<in> set (tee rnd c b reads). fraction rnd b c \<le> x)"
proof (induction reads arbitrary: b)
  case Nil
  show ?case by simp
next
  case (Cons n reads)
  let ?b = "b + int n"
  have w: "wrap64 ?b = ?b"
    using Cons.prems by (intro wrap64_id) simp_all
  have ih: "sorted (tee rnd c ?b reads) \<and> (\<forall>x \<in> set (tee rnd c ?b reads). fraction rnd ?b c \<le> x)"
    using Cons.prems by (intro Cons.IH) simp_all
  have m: "fraction rnd b c \<le> fraction rnd ?b c"
    using assms by (rule fraction_mono) simp
  have t: "tee rnd c b (n # reads) = fraction rnd ?b c # tee rnd c ?b reads"
    using assms(3) by (simp add: w Let_def)
  from ih m show ?case
    unfolding t by auto
qed

lemma tee_last:
  assumes "0 < c"
  shows "0 \<le> b \<Longrightarrow> b + int (sum_list reads) < 2 ^ 63 \<Longrightarrow> reads \<noteq> [] \<Longrightarrow>
     last (tee rnd c b reads) = fraction rnd (b + int (sum_list reads)) c"
proof (induction reads arbitrary: b)
  case Nil
  then show ?case by simp
next
  case (Cons n reads)
  let ?b = "b + int n"
  have w: "wrap64 ?b = ?b"
    using Cons.prems by (intro wrap64_id) simp_all
  have t: "tee rnd c b (n # reads) = fraction rnd ?b c # tee rnd c ?b reads"
    using assms by (simp add: w Let_def)
  show ?case
  proof (cases "reads = []")
    case True
    then show ?thesis unfolding t by simp
  next
    case False
    have "last (tee rnd c ?b reads) = fraction rnd (?b + int (sum_list reads)) c"
      using Cons.prems False by (intro Cons.IH) simp_all
    moreover have "tee rnd c ?b reads \<noteq> []"
      using False assms by (cases reads) (simp_all add: Let_def)
    ultimately show ?thesis
      unfolding t by (simp add: add.assoc)
  qed
qed

lemma bar_of_download:
  "snd (snd (DownloadAndExtract os rnd got untar reads sizeHint destRoot st)) =
     (case got of
        Inl err \<Rightarrow> []
      | Inr resp \<Rightarrow>
          if StatusCode resp < 200 \<or> StatusCode resp \<ge> 300 then []
          else tee rnd (contentLength resp sizeHint) 0 reads)"
  by (simp add: DownloadAndExtract_def Let_def split: sum.splits prod.splits option.splits)

text \<open>
  Claim C6.  Let the rounding to \<^verbatim>\<open>float64\<close> be monotone and leave 1 as it is, as
  rounding to the nearest does, and let the stream have fewer than \<open>2\<^sup>6\<^sup>3\<close> bytes.  Then
  the values that a run of \<^verbatim>\<open>DownloadAndExtract\<close> sets on the bar never decrease.
  When the download succeeded, the expected length (the response's when that is
  positive, or else the size hint) is positive and a chunk was read, a value is set, and
  the last one is the quotient of the bytes of the stream by the expected length: it is
  exactly 1 when the stream has as many bytes as expected, at most 1 when it has fewer,
  and at least 1 when it has more.
\<close>

theorem progress_monotone:
  assumes "mono rnd" and "rnd 1 = 1" and "int (sum_list reads) < 2 ^ 63"
  shows "sorted (snd (snd (DownloadAndExtract os rnd got untar reads sizeHint destRoot st))) \<and>
         (got = Inr resp \<and> 200 \<le> StatusCode resp \<and> StatusCode resp < 300 \<and>
          0 < contentLength resp sizeHint \<and> reads \<noteq> [] \<longrightarrow>
            snd (snd (DownloadAndExtract os rnd got untar reads sizeHint destRoot st)) \<noteq> [] \<and>
            last (snd (snd (DownloadAndExtract os rnd got untar reads sizeHint destRoot st))) =
              fraction rnd (int (sum_list reads)) (contentLength resp sizeHint) \<and>
            (int (sum_list reads) = contentLength resp sizeHint \<longrightarrow>
               last (snd (snd (DownloadAndExtract os rnd got untar reads sizeHint destRoot st))) = 1) \<and>
            (int (sum_list reads) \<le> contentLength resp sizeHint \<longrightarrow>
               last (snd (snd (DownloadAndExtract os rnd got untar reads sizeHint destRoot st))) \<le> 1) \<and>
            (contentLength resp sizeHint \<le> int (sum_list reads) \<longrightarrow>
               1 \<le> last (snd (snd (DownloadAndExtract os rnd got untar reads sizeHint destRoot st)))))"
proof -
  have s: "sorted (tee rnd c 0 reads)" for c
  proof (cases "0 < c")
    case True
    with assms show ?thesis
      using tee_sorted [of rnd c 0 reads] by simp
  next
    case False
    have "tee rnd c b reads = []" for b
      using False by (induction reads arbitrary: b) (simp_all add: Let_def)
    then show ?thesis by simp
  qed
  have a: "sorted (snd (snd (DownloadAndExtract os rnd got untar reads sizeHint destRoot st)))"
    unfolding bar_of_download using s by (simp split: sum.splits)
  have b: "snd (snd (DownloadAndExtract os rnd got untar reads sizeHint destRoot st)) \<noteq> [] \<and>
      last (snd (snd (DownloadAndExtract os rnd got untar reads sizeHint destRoot st))) =
        fraction rnd (int (sum_list reads)) (contentLength resp sizeHint) \<and>
      (int (sum_list reads) = contentLength resp sizeHint \<longrightarrow>
         last (snd (snd (DownloadAndExtract os rnd got untar reads sizeHint destRoot st))) = 1) \<and>
      (int (sum_list reads) \<le> contentLength resp sizeHint \<longrightarrow>
         last (snd (snd (DownloadAndExtract os rnd got untar reads sizeHint destRoot st))) \<le> 1) \<and>
      (contentLength resp sizeHint \<le> int (sum_list reads) \<longrightarrow>
         1 \<le> last (snd (snd (DownloadAndExtract os rnd got untar reads sizeHint destRoot st))))"
    if g: "got = Inr resp" "200 \<le> StatusCode resp" "StatusCode resp < 300"
      and c: "0 < contentLength resp sizeHint" and ne: "reads \<noteq> []"
  proof -
    let ?c = "contentLength resp sizeHint"
    let ?n = "int (sum_list reads)"
    have bar: "snd (snd (DownloadAndExtract os rnd got untar reads sizeHint destRoot st)) =
        tee rnd ?c 0 reads"
      unfolding bar_of_download using g by simp
    have "last (tee rnd ?c 0 reads) = fraction rnd (0 + ?n) ?c"
      using c assms(3) ne by (intro tee_last) simp_all
    then have l: "last (tee rnd ?c 0 reads) = fraction rnd ?n ?c"
      by simp
    have full: "fraction rnd ?c ?c = 1"
      using assms(1,2) c by (rule fraction_full)
    have eq: "?n = ?c \<longrightarrow> fraction rnd ?n ?c = 1"
      using full by simp
    have le: "?n \<le> ?c \<longrightarrow> fraction rnd ?n ?c \<le> 1"
      using fraction_mono [OF assms(1,2) c, of ?n ?c] full by simp
    have ge: "?c \<le> ?n \<longrightarrow> 1 \<le> fraction rnd ?n ?c"
      using fraction_mono [OF assms(1,2) c, of ?c ?n] full by simp
    have "tee rnd ?c 0 reads \<noteq> []"
      using ne c by (cases reads) (simp_all add: Let_def)
    with l eq le ge show ?thesis
      unfolding bar by simp
  qed
  from a b show ?thesis by blast
qed

theorem progress_monotone_witness:
  "snd (snd (DownloadAndExtract (recorder False) exact (Inr ((ok [])\<lparr>ContentLength := 7\<rparr>))
       (tarball geArchive) [3, 4] 10 ''/dest'' st0)) = [3 / 7, 1] \<and>
   sorted [3 / 7, 1 :: real] \<and> last [3 / 7, 1 :: real] = 1"
proof -
  have m: "mono exact" and o: "exact 1 = 1"
    by (simp_all add: exact_def mono_def)
  have r: "int (sum_list [3, 4]) < 2 ^ 63"
    by simp
  have bar: "snd (snd (DownloadAndExtract (recorder False) exact (Inr ((ok [])\<lparr>ContentLength := 7\<rparr>))
       (tarball geArchive) [3, 4] 10 ''/dest'' st0)) = [3 / 7, 1]"
    unfolding bar_of_download
    by (simp add: ok_def contentLength_def Let_def wrap64_def fraction_def exact_def)
  have "sorted (snd (snd (DownloadAndExtract (recorder False) exact
       (Inr ((ok [])\<lparr>ContentLength := 7\<rparr>)) (tarball geArchive) [3, 4] 10 ''/dest'' st0))) \<and>
     last (snd (snd (DownloadAndExtract (recorder False) exact
       (Inr ((ok [])\<lparr>ContentLength := 7\<rparr>)) (tarball geArchive) [3, 4] 10 ''/dest'' st0))) = 1"
    using progress_monotone [OF m o r, where got = "Inr ((ok [])\<lparr>ContentLength := 7\<rparr>)"
        and resp = "(ok [])\<lparr>ContentLength := 7\<rparr>"
        and sizeHint = 10 and os = "recorder False" and untar = "tarball geArchive"
        and destRoot = "''/dest''" and st = st0]
    by (simp add: ok_def contentLength_def)
  then show ?thesis
    unfolding bar by simp
qed

text \<open>
  The last value is not 1 whenever the stream is consumed.  A response without a
  \<^verbatim>\<open>Content-Length\<close> and a size hint of 10 give the expected length 10; a stream of
  two chunks of 3 and 4 bytes, read to its end, leaves the bar at 7/10.
\<close>

theorem progress_monotone_counterexample:
  "contentLength (ok []) 10 = 10 \<and>
   snd (snd (DownloadAndExtract (recorder False) exact (Inr (ok [])) (tarball geArchive)
       [3, 4] 10 ''/dest'' st0)) = [3 / 10, 7 / 10] \<and>
   last (snd (snd (DownloadAndExtract (recorder False) exact (Inr (ok [])) (tarball geArchive)
       [3, 4] 10 ''/dest'' st0))) \<noteq> 1"
proof -
  have bar: "snd (snd (DownloadAndExtract (recorder False) exact (Inr (ok [])) (tarball geArchive)
       [3, 4] 10 ''/dest'' st0)) = [3 / 10, 7 / 10]"
    unfolding bar_of_download
    by (simp add: ok_def contentLength_def Let_def wrap64_def fraction_def exact_def)
  show ?thesis
    unfolding bar by (simp add: ok_def contentLength_def)
qed

section \<open>The asset chosen\<close>

lemma swap_adjacent:
  "swap (pre @ y # x # post) (Suc (length pre)) (length pre) = pre @ x # y # post"
  by (simp add: swap_def nth_append list_update_append)

lemma insertionInner_insRev:
  "insertionInner cmp 0 (rev acc @ x # post) (length acc) = rev (insRev cmp x acc) @ post"
proof (induction acc arbitrary: post)
  case Nil
  show ?case by (subst insertionInner.simps) simp
next
  case (Cons y ys)
  have nth: "(rev ys @ y # x # post) ! Suc (length ys) = x" "(rev ys @ y # x # post) ! length ys = y"
    by (simp_all add: nth_append)
  show ?case
  proof (cases "cmp x y < 0")
    case True
    have "insertionInner cmp 0 (rev ys @ y # x # post) (Suc (length ys)) =
        insertionInner cmp 0 (swap (rev ys @ y # x # post) (Suc (length ys)) (length ys)) (length ys)"
      by (subst insertionInner.simps) (simp add: nth True)
    also have "swap (rev ys @ y # x # post) (Suc (length ys)) (length ys) = rev ys @ x # y # post"
      using swap_adjacent [of "rev ys" y x post] by simp
    also have "insertionInner cmp 0 (rev ys @ x # y # post) (length ys) =
        rev (insRev cmp x ys) @ y # post"
      by (rule Cons.IH)
    finally show ?thesis
      using True by simp
  next
    case False
    have "insertionInner cmp 0 (rev ys @ y # x # post) (Suc (length ys)) = rev ys @ y # x # post"
      by (subst insertionInner.simps) (simp add: nth False)
    then show ?thesis
      using False by simp
  qed
qed

lemma length_insRev: "length (insRev cmp x acc) = Suc (length acc)"
  by (induction acc) simp_all

lemma insertionOuter_foldl:
  "insertionOuter cmp 0 (length acc + length rest) (rev acc @ rest) (length acc) =
     rev (foldl (\<lambda>acc x. insRev cmp x acc) acc rest)"
proof (induction rest arbitrary: acc)
  case Nil
  show ?case by (subst insertionOuter.simps) simp
next
  case (Cons x xs)
  have "insertionOuter cmp 0 (length acc + length (x # xs)) (rev acc @ x # xs) (length acc) =
      insertionOuter cmp 0 (length acc + length (x # xs)) (rev (insRev cmp x acc) @ xs)
        (length acc + 1)"
    by (subst insertionOuter.simps) (simp add: insertionInner_insRev)
  also have "\<dots> = rev (foldl (\<lambda>acc x. insRev cmp x acc) (insRev cmp x acc) xs)"
    using Cons.IH [of "insRev cmp x acc"] by (simp add: length_insRev)
  finally show ?case by simp
qed

lemma insertionSortCmpFunc_foldl:
  "insertionSortCmpFunc cmp data 0 (length data) = rev (foldl (\<lambda>acc x. insRev cmp x acc) [] data)"
proof (cases data)
  case Nil
  then show ?thesis
    by (simp add: insertionSortCmpFunc_def) (subst insertionOuter.simps, simp)
next
  case (Cons x xs)
  then show ?thesis
    using insertionOuter_foldl [of cmp "[x]" xs] by (simp add: insertionSortCmpFunc_def)
qed

lemma mset_insRev: "mset (insRev cmp x acc) = add_mset x (mset acc)"
  by (induction acc) simp_all

lemma mset_foldl_insRev:
  "mset (foldl (\<lambda>acc x. insRev cmp x acc) acc rest) = mset acc + mset rest"
  by (induction rest arbitrary: acc) (simp_all add: mset_insRev)

lemma mset_insertionSortCmpFunc:
  "mset (insertionSortCmpFunc cmp data 0 (length data)) = mset data"
  by (simp add: insertionSortCmpFunc_foldl mset_foldl_insRev)

lemma bySize_less: "bySize a b < 0 \<longleftrightarrow> Size b < Size a"
  by (simp add: bySize_def)

lemma sorted_insRev:
  "sorted_wrt (\<lambda>a b. Size a \<le> Size b) acc \<Longrightarrow>
   sorted_wrt (\<lambda>a b. Size a \<le> Size b) (insRev bySize x acc)"
proof (induction acc)
  case Nil
  show ?case by simp
next
  case (Cons y ys)
  have "set (insRev bySize x ys) = insert x (set ys)"
    using mset_insRev [of bySize x ys] by (metis mset_eq_setD set_mset_add_mset_insert set_mset_mset)
  with Cons show ?case
    by (auto simp: bySize_less)
qed

lemma sorted_foldl_insRev:
  "sorted_wrt (\<lambda>a b. Size a \<le> Size b) acc \<Longrightarrow>
   sorted_wrt (\<lambda>a b. Size a \<le> Size b) (foldl (\<lambda>acc x. insRev bySize x acc) acc rest)"
  by (induction rest arbitrary: acc) (simp_all add: sorted_insRev)

lemma sorted_insertionSortCmpFunc:
  "sorted_wrt (\<lambda>a b. \<not> bySize b a < 0) (insertionSortCmpFunc bySize data 0 (length data))"
proof -
  have "sorted_wrt (\<lambda>a b. Size a \<le> Size b) (foldl (\<lambda>acc x. insRev bySize x acc) [] data)"
    by (rule sorted_foldl_insRev) simp
  then have "sorted_wrt (\<lambda>a b. Size b \<le> Size a) (rev (foldl (\<lambda>acc x. insRev bySize x acc) [] data))"
    by (simp add: sorted_wrt_rev)
  then show ?thesis
    by (simp add: insertionSortCmpFunc_foldl bySize_less not_less)
qed

lemma sortsBySize_stableLong: "sortsBySize stableLong"
  by (simp add: sortsBySize_def stableLong_def mset_insertionSortCmpFunc sorted_insertionSortCmpFunc)

lemma insRev_nonempty: "insRev cmp x acc \<noteq> []"
  by (cases acc) simp_all

lemma last_insRev:
  "last (insRev bySize x acc) = (if \<forall>y \<in> set acc. Size y < Size x then x else last acc)"
  by (induction acc) (auto simp: bySize_less insRev_nonempty)

lemma stable_head:
  "data \<noteq> [] \<Longrightarrow>
   \<exists>i < length data.
     last (foldl (\<lambda>acc x. insRev bySize x acc) [] data) = data ! i \<and>
     (\<forall>j < length data. Size (data ! j) \<le> Size (data ! i)) \<and>
     (\<forall>j < i. Size (data ! j) < Size (data ! i))"
proof (induction data rule: rev_induct)
  case Nil
  then show ?case by simp
next
  case (snoc x p)
  let ?acc = "foldl (\<lambda>acc x. insRev bySize x acc) [] p"
  have set: "set ?acc = set p"
    using mset_foldl_insRev [of bySize "[]" p] by (metis add_cancel_left_left mset.simps(1) mset_eq_setD)
  have step: "foldl (\<lambda>acc x. insRev bySize x acc) [] (p @ [x]) = insRev bySize x ?acc"
    by simp
  show ?case
  proof (cases "p = []")
    case True
    then show ?thesis by simp
  next
    case False
    with snoc.IH obtain i where i: "i < length p" "last ?acc = p ! i"
      "\<forall>j < length p. Size (p ! j) \<le> Size (p ! i)" "\<forall>j < i. Size (p ! j) < Size (p ! i)"
      by blast
    have all: "(\<forall>y \<in> set ?acc. Size y < Size x) \<longleftrightarrow> Size (p ! i) < Size x"
      unfolding set using i(1,3) by (fastforce simp: in_set_conv_nth)
    show ?thesis
    proof (cases "Size (p ! i) < Size x")
      case True
      from True all have "\<forall>y \<in> set ?acc. Size y < Size x"
        by blast
      then have "last (insRev bySize x ?acc) = x"
        unfolding last_insRev by (rule if_P)
      then have "last (insRev bySize x ?acc) = (p @ [x]) ! length p"
        by simp
      moreover have "\<forall>j < length (p @ [x]). Size ((p @ [x]) ! j) \<le> Size ((p @ [x]) ! length p)"
        using True i(3) by (auto simp: nth_append less_Suc_eq)
      moreover have "\<forall>j < length p. Size ((p @ [x]) ! j) < Size ((p @ [x]) ! length p)"
        using True i(3) by (auto simp: nth_append)
      ultimately show ?thesis
        unfolding step by (intro exI [of _ "length p"]) simp
    next
      case False
      from False all have "\<not> (\<forall>y \<in> set ?acc. Size y < Size x)"
        by blast
      then have "last (insRev bySize x ?acc) = last ?acc"
        unfolding last_insRev by (rule if_not_P)
      then have "last (insRev bySize x ?acc) = (p @ [x]) ! i"
        using i(1,2) by (simp add: nth_append)
      moreover have "\<forall>j < length (p @ [x]). Size ((p @ [x]) ! j) \<le> Size ((p @ [x]) ! i)"
        using False i(1,3) by (auto simp: nth_append less_Suc_eq)
      moreover have "\<forall>j < i. Size ((p @ [x]) ! j) < Size ((p @ [x]) ! i)"
        using i(1,4) by (auto simp: nth_append)
      ultimately show ?thesis
        unfolding step using i(1) by (intro exI [of _ i]) simp
    qed
  qed
qed

lemma insertionSort_head:
  assumes "data \<noteq> []"
  shows "\<exists>i < length data.
     insertionSortCmpFunc bySize data 0 (length data) ! 0 = data ! i \<and>
     (\<forall>j < length data. Size (data ! j) \<le> Size (data ! i)) \<and>
     (\<forall>j < i. Size (data ! j) < Size (data ! i))"
proof -
  let ?acc = "foldl (\<lambda>acc x. insRev bySize x acc) [] data"
  have "length ?acc = length data"
    using mset_foldl_insRev [of bySize "[]" data] by (metis add_cancel_left_left mset.simps(1) size_mset)
  with assms have "?acc \<noteq> []" by auto
  then have "rev ?acc ! 0 = last ?acc"
    by (simp add: hd_conv_nth [symmetric] hd_rev)
  with stable_head [OF assms] show ?thesis
    by (simp add: insertionSortCmpFunc_foldl)
qed

lemma long_head:
  assumes "sortsBySize long" and "12 < length data"
  shows "long bySize data ! 0 \<in> set data \<and> (\<forall>b \<in> set data. Size b \<le> Size (long bySize data ! 0))"
proof -
  let ?l = "long bySize data"
  from assms have m: "mset ?l = mset data" and s: "sorted_wrt (\<lambda>a b. \<not> bySize b a < 0) ?l"
    by (simp_all add: sortsBySize_def)
  from m have set: "set ?l = set data" by (rule mset_eq_setD)
  from m have "length ?l = length data" by (rule mset_eq_length)
  with assms(2) have ne: "0 < length ?l" by linarith
  then have a: "?l ! 0 \<in> set data"
    unfolding set [symmetric] by (rule nth_mem)
  have "Size b \<le> Size (?l ! 0)" if "b \<in> set data" for b
  proof -
    from that set have "b \<in> set ?l" by simp
    then obtain j where j: "j < length ?l" "?l ! j = b"
      unfolding in_set_conv_nth by blast
    show ?thesis
    proof (cases "j = 0")
      case True
      with j show ?thesis by simp
    next
      case False
      with s j(1) have "\<not> bySize (?l ! j) (?l ! 0) < 0"
        by (simp add: sorted_wrt_iff_nth_less)
      with j(2) show ?thesis by (simp add: bySize_less)
    qed
  qed
  with a show ?thesis by blast
qed

lemma SortFunc_head:
  assumes "sortsBySize long" and "data \<noteq> []"
  shows "SortFunc long bySize data ! 0 \<in> set data \<and>
     (\<forall>b \<in> set data. Size b \<le> Size (SortFunc long bySize data ! 0)) \<and>
     (length data \<le> 12 \<longrightarrow>
        (\<exists>i < length data. SortFunc long bySize data ! 0 = data ! i \<and>
           (\<forall>j < i. Size (data ! j) < Size (data ! i))))"
proof (cases "length data \<le> 12")
  case True
  from insertionSort_head [OF assms(2)] obtain i where i: "i < length data"
    "insertionSortCmpFunc bySize data 0 (length data) ! 0 = data ! i"
    "\<forall>j < length data. Size (data ! j) \<le> Size (data ! i)" "\<forall>j < i. Size (data ! j) < Size (data ! i)"
    by blast
  have "\<forall>b \<in> set data. Size b \<le> Size (data ! i)"
    using i(3) by (auto simp: in_set_conv_nth)
  with i True show ?thesis
    by (auto simp: SortFunc_def)
next
  case False
  with long_head [OF assms(1), of data] show ?thesis
    by (simp add: SortFunc_def)
qed

lemma winningTier_cands:
  "PickLinuxTarball long assets =
     (if winningTier assets = [] then (zeroAsset, False)
      else (SortFunc long bySize (winningTier assets) ! 0, True))"
  by (auto simp: PickLinuxTarball_def winningTier_def Let_def filter_empty_conv)

lemma winningTier_empty: "winningTier assets = [] \<longleftrightarrow> \<not> (\<exists>a \<in> set assets. isTarGz a)"
  by (auto simp: winningTier_def filter_empty_conv)


text \<open>
  Claim C2, as amended.  Let \<open>long\<close>, the library's sort of a slice of more than twelve
  elements, return the elements it was given in an order in which the comparison puts
  no element before an earlier one, as its documentation says.  Then for every sequence
  of assets \<^verbatim>\<open>PickLinuxTarball\<close> reports that it found one exactly when some name
  ends with \<^verbatim>\<open>.tar.gz\<close> up to the case of letters, and returns the zero asset
  otherwise.  The asset found is one of the winning tier (the names that also contain
  \<^verbatim>\<open>ge-proton\<close> when there are any, else all names ending with \<^verbatim>\<open>.tar.gz\<close>), and
  none of that tier has a larger declared size.  When the winning tier has at most
  twelve assets, it is the first of them of that largest size: every asset before it in
  the tier is strictly smaller.
\<close>

theorem pick_largest_in_tier:
  assumes "sortsBySize long"
  shows "snd (PickLinuxTarball long assets) = (\<exists>a \<in> set assets. isTarGz a) \<and>
         (\<not> snd (PickLinuxTarball long assets) \<longrightarrow> fst (PickLinuxTarball long assets) = zeroAsset) \<and>
         (snd (PickLinuxTarball long assets) \<longrightarrow>
            fst (PickLinuxTarball long assets) \<in> set (winningTier assets) \<and>
            (\<forall>b \<in> set (winningTier assets). Size b \<le> Size (fst (PickLinuxTarball long assets))) \<and>
            (length (winningTier assets) \<le> 12 \<longrightarrow>
               (\<exists>i < length (winningTier assets).
                  fst (PickLinuxTarball long assets) = winningTier assets ! i \<and>
                  (\<forall>j < i. Size (winningTier assets ! j) < Size (winningTier assets ! i)))))"
proof (cases "winningTier assets = []")
  case True
  then have "PickLinuxTarball long assets = (zeroAsset, False)"
    by (simp add: winningTier_cands)
  with True show ?thesis
    by (simp add: winningTier_empty)
next
  case False
  then have p: "PickLinuxTarball long assets = (SortFunc long bySize (winningTier assets) ! 0, True)"
    by (simp add: winningTier_cands)
  from False have "\<exists>a \<in> set assets. isTarGz a"
    by (simp add: winningTier_empty)
  with SortFunc_head [OF assms False] show ?thesis
    unfolding p by simp
qed

theorem pick_largest_in_tier_witness:
  "PickLinuxTarball stableLong three = (asset ''y-ge-proton.tar.gz'' 500, True) \<and>
   PickLinuxTarball stableLong fallback = (asset ''build.tar.gz'' 10, True) \<and>
   PickLinuxTarball stableLong [asset ''readme.txt'' 0] = (zeroAsset, False)"
proof -
  have t: "winningTier three = three" and f: "winningTier fallback = [asset ''build.tar.gz'' 10]"
    and n: "winningTier [asset ''readme.txt'' 0] = []"
    by code_simp+
  have tz: "\<exists>a \<in> set three. isTarGz a" and fz: "\<exists>a \<in> set fallback. isTarGz a"
    and nz: "\<not> (\<exists>a \<in> set [asset ''readme.txt'' 0]. isTarGz a)"
    by code_simp+
  have len: "length three \<le> 12" "length three = 3"
    by (simp_all add: three_def)
  have sz: "Size (three ! 0) = 100" "Size (three ! 1) = 500" "Size (three ! 2) = 500"
    and mem: "three ! 1 \<in> set three"
    by (simp_all add: three_def asset_def)
  note pick = pick_largest_in_tier [OF sortsBySize_stableLong, of three, unfolded t]
  from pick tz have st: "snd (PickLinuxTarball stableLong three)"
    by blast
  from pick st have mx: "\<forall>b \<in> set three. Size b \<le> Size (fst (PickLinuxTarball stableLong three))"
    by blast
  from pick st len(1) obtain i where i: "i < length three"
    "fst (PickLinuxTarball stableLong three) = three ! i"
    "\<forall>j < i. Size (three ! j) < Size (three ! i)"
    by blast
  from mx have "\<forall>b \<in> set three. Size b \<le> Size (three ! i)"
    unfolding i(2) .
  note i = i this
  from i(1) len(2) have "i = 0 \<or> i = 1 \<or> i = 2" by auto
  moreover have "i \<noteq> 0"
  proof
    assume "i = 0"
    with i(4) mem have "Size (three ! 1) \<le> Size (three ! 0)" by blast
    with sz show False by simp
  qed
  moreover have "i \<noteq> 2"
  proof
    assume "i = 2"
    with i(3) have "Size (three ! 1) < Size (three ! 2)" by simp
    with sz show False by simp
  qed
  ultimately have "i = 1" by blast
  with i(2) have "fst (PickLinuxTarball stableLong three) = asset ''y-ge-proton.tar.gz'' 500"
    by (simp add: three_def)
  with st have a: "PickLinuxTarball stableLong three = (asset ''y-ge-proton.tar.gz'' 500, True)"
    by (simp add: prod_eq_iff)
  from pick_largest_in_tier [OF sortsBySize_stableLong, of fallback] fz
  have "fst (PickLinuxTarball stableLong fallback) \<in> set (winningTier fallback)"
    and "snd (PickLinuxTarball stableLong fallback)"
    by blast+
  then have b: "PickLinuxTarball stableLong fallback = (asset ''build.tar.gz'' 10, True)"
    unfolding f by (simp add: prod_eq_iff)
  from pick_largest_in_tier [OF sortsBySize_stableLong, of "[asset ''readme.txt'' 0]"] nz
  have "fst (PickLinuxTarball stableLong [asset ''readme.txt'' 0]) = zeroAsset"
    and "\<not> snd (PickLinuxTarball stableLong [asset ''readme.txt'' 0])"
    by blast+
  then have c: "PickLinuxTarball stableLong [asset ''readme.txt'' 0] = (zeroAsset, False)"
    by (simp add: prod_eq_iff)
  from a b c show ?thesis by blast
qed

text \<open>
  With thirteen assets in the winning tier the first of the largest size is not always
  the one returned.  Of \<^const>\<open>thirteen\<close> the first two have the largest size, 9.  The
  library takes the elements at indices 3, 6 and 9 (sizes 2, 1 and 3), finds the one at
  index 3 to be their median, and partitions around it: the pivot is exchanged with the
  first element, so the first asset comes to stand at index 3, behind the second at
  index 1, and the partition moves neither.  The insertion sort of the first eleven
  elements keeps the order of elements of equal size and leaves the second asset in
  front.
\<close>

theorem pick_largest_in_tier_counterexample:
  "PickLinuxTarball pdqsortCmpFunc13 thirteen = (asset ''GE-Proton9-5-debug.tar.gz'' 9, True) \<and>
   winningTier thirteen = thirteen \<and>
   thirteen ! 0 = asset ''GE-Proton9-5.tar.gz'' 9 \<and>
   thirteen ! 1 = asset ''GE-Proton9-5-debug.tar.gz'' 9 \<and>
   map Size (SortFunc pdqsortCmpFunc13 bySize thirteen) = [9, 9, 5, 5, 5, 5, 5, 5, 5, 5, 3, 2, 1]"
proof -
  have a: "PickLinuxTarball pdqsortCmpFunc13 thirteen = (asset ''GE-Proton9-5-debug.tar.gz'' 9, True)"
    by code_simp
  have b: "winningTier thirteen = thirteen"
    by code_simp
  have c: "thirteen ! 0 = asset ''GE-Proton9-5.tar.gz'' 9"
    and d: "thirteen ! 1 = asset ''GE-Proton9-5-debug.tar.gz'' 9"
    by (simp_all add: thirteen_def)
  have e: "map Size (SortFunc pdqsortCmpFunc13 bySize thirteen) = [9, 9, 5, 5, 5, 5, 5, 5, 5, 5, 3, 2, 1]"
    by code_simp
  from a b c d e show ?thesis by blast
qed

end
